theory Spec2Isabelle
  imports Main "HOL-Library.Word"
begin

unbundle bit_operations_syntax

section \<open>Build configuration, machine parameters and kernel state\<close>

text \<open>
  The three preprocessor switches of \<^verbatim>\<open>pintos.c\<close>. Every \<^verbatim>\<open>#ifdef\<close> of the source is a test
  of one of these fields.
\<close>

record build =
  FILESYS :: bool
  USERPROG :: bool
  VM :: bool

text \<open>
  What \<^verbatim>\<open>pintos.c\<close> takes from headers, linker symbols and collaborators that are not part of
  the file: the page geometry and entry flags (\<^verbatim>\<open>PGSIZE\<close> is \<open>2 ^ PGBITS\<close>; \<^verbatim>\<open>PTE_P\<close> and
  \<^verbatim>\<open>PTE_W\<close> have type \<^verbatim>\<open>int\<close>, as \<^verbatim>\<open>perm\<close> has), the offset of \<^verbatim>\<open>ptov\<close>, the linker symbols
  \<^verbatim>\<open>start\<close> and \<^verbatim>\<open>_end_kernel_text\<close>, the loader's window length and element count, the value
  returned by \<^verbatim>\<open>palloc_init\<close>, the frame \<^verbatim>\<open>palloc_get_page\<close> hands out for the root (0 is
  \<^verbatim>\<open>NULL\<close>), and the table walk \<^verbatim>\<open>pml4e_walk (pml4, va, 1)\<close>, which yields the address of the
  leaf entry for \<open>va\<close> or \<^verbatim>\<open>NULL\<close>.
\<close>

record machine =
  PGBITS :: nat
  PTE_P :: "32 word"
  PTE_W :: "32 word"
  KERN_BASE :: "64 word"
  start :: "64 word"
  end_kernel_text :: "64 word"
  LOADER_ARGS_LEN :: nat
  LOADER_ARG_CNT :: "32 word"
  palloc_init_result :: "64 word"
  palloc_root :: "64 word"
  pml4e_walk :: "64 word \<Rightarrow> 64 word \<Rightarrow> 64 word"

datatype handler = Run_task | Fsutil_ls | Fsutil_cat | Fsutil_rm | Fsutil_put | Fsutil_get

text \<open>
  Calls into the rest of the kernel, in the order they are made. \<open>Printf\<close> carries the
  formatted text, \<open>Random_init\<close> the seed, \<open>Fsutil\<close> the handler and the argument vector it is
  given; \<open>Memset_bss\<close> is the \<^verbatim>\<open>memset\<close> of \<^verbatim>\<open>bss_init\<close>. The string functions of the C
  library and the table walk are modelled by their results and leave no event.
\<close>

datatype event =
    Printf string
  | Memset_bss
  | Random_init "32 word"
  | Thread_init | Console_init | Palloc_init | Malloc_init
  | Palloc_get_page | Pml4_activate
  | Tss_init | Gdt_init
  | Intr_init | Timer_init | Kbd_init | Input_init
  | Exception_init | Syscall_init
  | Thread_start | Serial_init_queue | Timer_calibrate
  | Disk_init | Filesys_init bool
  | Vm_init
  | Run_test string | Process_create_initd string | Process_wait
  | Fsutil handler "nat list"
  | Filesys_done
  | Timer_print_stats | Thread_print_stats | Disk_print_stats
  | Console_print_stats | Kbd_print_stats | Exception_print_stats
  | Outw "16 word" "16 word"
  | Thread_exit_call

text \<open>
  The ways a boot step does not return to its caller: \<^verbatim>\<open>PANIC\<close> with its message, the
  power-off wait loop, \<^verbatim>\<open>thread_exit\<close>, the failed \<^verbatim>\<open>PAL_ASSERT\<close> allocation, a null pointer
  handed to the C library, a read beyond the modelled memory, and a store beyond the static
  \<^verbatim>\<open>argv\<close> array.
\<close>

datatype stop =
    Panic string
  | Power_off
  | Thread_exit
  | Palloc_assert
  | Null_pointer
  | Bad_address
  | Argv_overflow

text \<open>
  The globals the file reads and writes, the bytes of physical memory from the start of the
  loader's argument window on (\<open>mem\<close>; an address is an offset from the window start), the
  leaf entries written so far, keyed by the entry's address, and the trace of outside calls.
  \<^verbatim>\<open>thread_mlfqs\<close> and \<^verbatim>\<open>user_page_limit\<close> are declared in other files; the page limit is
  taken as a 64-bit \<^verbatim>\<open>size_t\<close>, to which an \<^verbatim>\<open>int\<close> is converted with its sign.
\<close>

record kernel_state =
  base_pml4 :: "64 word"
  format_filesys :: bool
  power_off_when_done :: bool
  thread_tests :: bool
  thread_mlfqs :: bool
  user_page_limit :: "64 word"
  random_seed :: "32 word option"
  mem :: "char list"
  page_table :: "64 word \<rightharpoonup> 64 word"
  active_pml4 :: "64 word"
  calls :: "event list"

type_synonym 'a result = "stop \<times> kernel_state + 'a"

definition emit :: "event \<Rightarrow> kernel_state \<Rightarrow> kernel_state" where
  "emit e st = st\<lparr>calls := calls st @ [e]\<rparr>"

definition printf :: "string \<Rightarrow> kernel_state \<Rightarrow> kernel_state" where
  "printf s st = emit (Printf s) st"

abbreviation NUL :: char where
  "NUL \<equiv> CHR 0x00"

abbreviation newline :: char where
  "newline \<equiv> CHR 0x0A"

section \<open>Address-space bootstrapper\<close>

definition PGSIZE :: "machine \<Rightarrow> 64 word" where
  "PGSIZE M = 2 ^ PGBITS M"

definition ptov :: "machine \<Rightarrow> 64 word \<Rightarrow> 64 word" where
  "ptov M pa = pa + KERN_BASE M"

text \<open>
  \<^verbatim>\<open>int perm = PTE_P | PTE_W; if (&start <= va && va < &_end_kernel_text) perm &= ~PTE_W;\<close>
\<close>

definition page_perm :: "machine \<Rightarrow> 64 word \<Rightarrow> 32 word" where
  "page_perm M va =
     (let perm = PTE_P M OR PTE_W M
      in if start M \<le> va \<and> va < end_kernel_text M then perm AND NOT (PTE_W M) else perm)"

text \<open>
  One pass of the loop body: \<^verbatim>\<open>pte = pml4e_walk (pml4, va, 1); if (pte != NULL) *pte = pa | perm;\<close>
  The \<^verbatim>\<open>int\<close> \<open>perm\<close> is converted to 64 bits with its sign, as C does.
\<close>

definition map_page ::
  "machine \<Rightarrow> 64 word \<Rightarrow> 64 word \<Rightarrow> (64 word \<rightharpoonup> 64 word) \<Rightarrow> (64 word \<rightharpoonup> 64 word)" where
  "map_page M pml4 pa tbl =
     (let va = ptov M pa;
          perm = page_perm M va;
          pte = pml4e_walk M pml4 va
      in if pte \<noteq> 0 then tbl(pte \<mapsto> pa OR scast perm) else tbl)"

text \<open>
  \<^verbatim>\<open>for (uint64_t pa = 0; pa < mem_end; pa += PGSIZE)\<close>. The counter is a 64-bit word and
  wraps; the loop need not end, so not returning is the value \<open>None\<close>.
\<close>

partial_function (option) paging_loop ::
  "machine \<Rightarrow> 64 word \<Rightarrow> 64 word \<Rightarrow> 64 word \<Rightarrow> (64 word \<rightharpoonup> 64 word)
     \<Rightarrow> (64 word \<rightharpoonup> 64 word) option" where
  "paging_loop M pml4 mem_end pa tbl =
     (if pa < mem_end
      then paging_loop M pml4 mem_end (pa + PGSIZE M) (map_page M pml4 pa tbl)
      else Some tbl)"

text \<open>
  Modelled from the spec: \<^verbatim>\<open>palloc_get_page\<close> and \<^verbatim>\<open>pml4_activate\<close> are not in the file. For
  the root frame "unavailability is fatal", so \<^verbatim>\<open>palloc_get_page (PAL_ASSERT | PAL_ZERO)\<close> does
  not return when it has no page; after the loop \<^verbatim>\<open>pml4_activate (0)\<close> switches "the active
  translation root to the new table".
\<close>

definition paging_init :: "machine \<Rightarrow> 64 word \<Rightarrow> kernel_state \<Rightarrow> kernel_state result option" where
  "paging_init M mem_end st =
     (let pml4 = palloc_root M;
          st1 = emit Palloc_get_page st
      in if pml4 = 0 then Some (Inl (Palloc_assert, st1))
         else (case paging_loop M pml4 mem_end 0 (page_table st1) of
                 None \<Rightarrow> None
               | Some tbl \<Rightarrow>
                   Some (Inr (emit Pml4_activate
                     (st1\<lparr>base_pml4 := pml4, page_table := tbl, active_pml4 := pml4\<rparr>)))))"

text \<open>
  The loop in closed form, for the proofs: \<open>n\<close> passes of the body from \<open>pa\<close> on, and the
  number of pages below \<open>mem_end\<close>.
\<close>

fun map_pages ::
  "machine \<Rightarrow> 64 word \<Rightarrow> 64 word \<Rightarrow> nat \<Rightarrow> (64 word \<rightharpoonup> 64 word) \<Rightarrow> (64 word \<rightharpoonup> 64 word)" where
  "map_pages M pml4 pa 0 tbl = tbl"
| "map_pages M pml4 pa (Suc n) tbl = map_pages M pml4 (pa + PGSIZE M) n (map_page M pml4 pa tbl)"

definition page_count :: "machine \<Rightarrow> 64 word \<Rightarrow> nat" where
  "page_count M mem_end = (unat mem_end + 2 ^ PGBITS M - 1) div 2 ^ PGBITS M"

definition pte_of :: "machine \<Rightarrow> 64 word \<Rightarrow> 64 word" where
  "pte_of M pa = pa OR scast (page_perm M (ptov M pa))"

definition pte_present :: "machine \<Rightarrow> 64 word \<Rightarrow> bool" where
  "pte_present M e \<longleftrightarrow> e AND scast (PTE_P M) \<noteq> 0"

definition pte_writable :: "machine \<Rightarrow> 64 word \<Rightarrow> bool" where
  "pte_writable M e \<longleftrightarrow> e AND scast (PTE_W M) \<noteq> 0"

definition pte_frame :: "machine \<Rightarrow> 64 word \<Rightarrow> 64 word" where
  "pte_frame M e = push_bit (PGBITS M) (drop_bit (PGBITS M) e)"

definition in_kernel_text :: "machine \<Rightarrow> 64 word \<Rightarrow> bool" where
  "in_kernel_text M va \<longleftrightarrow> start M \<le> va \<and> va < end_kernel_text M"

definition page_aligned :: "machine \<Rightarrow> 64 word \<Rightarrow> bool" where
  "page_aligned M pa \<longleftrightarrow> take_bit (PGBITS M) pa = 0"

text \<open>
  What the theorems ask of the absent header constants: the two flags are different bits
  below the page size, and a page is smaller than \<open>2 ^ 31\<close> bytes.
\<close>

definition machine_ok :: "machine \<Rightarrow> bool" where
  "machine_ok M \<longleftrightarrow>
     PGBITS M < 31 \<and>
     drop_bit (PGBITS M) (PTE_P M) = 0 \<and> drop_bit (PGBITS M) (PTE_W M) = 0 \<and>
     PTE_W M \<noteq> 0 \<and> PTE_P M AND NOT (PTE_W M) \<noteq> 0"

section \<open>C library helpers\<close>

text \<open>
  The string functions of the C library that \<^verbatim>\<open>pintos.c\<close> calls, by their standard contracts,
  on the byte memory. A scan that runs off the modelled memory has no result.
\<close>

definition c_str :: "char list \<Rightarrow> nat \<Rightarrow> string option" where
  "c_str m p =
     (if NUL \<in> set (drop p m) then Some (takeWhile (\<lambda>c. c \<noteq> NUL) (drop p m)) else None)"

text \<open>\<^verbatim>\<open>strnlen (p, n)\<close>: the length of the string at \<open>p\<close>, looking at no more than \<open>n\<close> bytes.\<close>

definition strnlen :: "char list \<Rightarrow> nat \<Rightarrow> nat \<Rightarrow> nat option" where
  "strnlen m p n =
     (let s = take n (drop p m)
      in if NUL \<in> set s \<or> length s = n then Some (length (takeWhile (\<lambda>c. c \<noteq> NUL) s))
         else None)"

text \<open>
  \<^verbatim>\<open>strtok_r (s, delimiters, &save_ptr)\<close>, called with the position \<open>s\<close> to scan from (the
  caller passes the saved position where the C call passes \<^verbatim>\<open>NULL\<close>). It skips leading
  delimiters; at the terminator it returns \<^verbatim>\<open>NULL\<close>; else the token runs to the next
  delimiter, which is overwritten with a terminator. The result is the token, the new
  saved position and the memory.
\<close>

definition strtok_r :: "char list \<Rightarrow> nat \<Rightarrow> string \<Rightarrow> (nat option \<times> nat \<times> char list) option" where
  "strtok_r m s delimiters =
     (let s1 = s + length (takeWhile (\<lambda>c. c \<in> set delimiters \<and> c \<noteq> NUL) (drop s m))
      in if length m \<le> s1 then None
         else if m ! s1 = NUL then Some (None, s1, m)
         else
           (let s2 = s1 + length (takeWhile (\<lambda>c. c \<notin> set delimiters \<and> c \<noteq> NUL) (drop s1 m))
            in if length m \<le> s2 then None
               else if m ! s2 \<noteq> NUL then Some (Some s1, s2 + 1, m[s2 := NUL])
               else Some (Some s1, s2, m)))"

text \<open>
  \<^verbatim>\<open>atoi\<close>: optional white space, an optional sign, then decimal digits, accumulated in an
  \<^verbatim>\<open>int\<close> (32 bits, wrapping); whatever follows the digits is ignored.
\<close>

definition isspace :: "char \<Rightarrow> bool" where
  "isspace c \<longleftrightarrow> c \<in> set [CHR '' '', CHR 0x0C, CHR 0x0A, CHR 0x0D, CHR 0x09, CHR 0x0B]"

definition isdigit :: "char \<Rightarrow> bool" where
  "isdigit c \<longleftrightarrow> c \<in> set ''0123456789''"

fun atoi_digits :: "32 word \<Rightarrow> string \<Rightarrow> 32 word" where
  "atoi_digits v [] = v"
| "atoi_digits v (c # cs) =
     (if isdigit c then atoi_digits (v * 10 - (of_char c - 48)) cs else v)"

definition atoi_str :: "string \<Rightarrow> 32 word" where
  "atoi_str s =
     (let s1 = dropWhile isspace s;
          negative = (case s1 of c # cs \<Rightarrow> c = CHR ''-'' | [] \<Rightarrow> False);
          s2 = (case s1 of c # cs \<Rightarrow> if c = CHR ''+'' \<or> c = CHR ''-'' then cs else s1 | [] \<Rightarrow> []);
          v = atoi_digits 0 s2
      in if negative then v else - v)"

text \<open>\<^verbatim>\<open>atoi (value)\<close> on a pointer: a null pointer is dereferenced, which does not return.\<close>

definition atoi :: "char list \<Rightarrow> nat option \<Rightarrow> stop + 32 word" where
  "atoi m value =
     (case value of
        None \<Rightarrow> Inl Null_pointer
      | Some p \<Rightarrow> (case c_str m p of None \<Rightarrow> Inl Bad_address | Some s \<Rightarrow> Inr (atoi_str s)))"

text \<open>The \<^verbatim>\<open>%d\<close> conversion of \<^verbatim>\<open>printf\<close>.\<close>

function show_nat :: "nat \<Rightarrow> string" where
  "show_nat n =
     (if n < 10 then [''0123456789'' ! n] else show_nat (n div 10) @ [''0123456789'' ! (n mod 10)])"
  by pat_completeness auto
termination
  by (relation "measure id") auto

definition show_int :: "int \<Rightarrow> string" where
  "show_int i = (if i < 0 then CHR ''-'' # show_nat (nat (- i)) else show_nat (nat i))"

section \<open>Shutdown sequencer\<close>

definition print_stats :: "build \<Rightarrow> kernel_state \<Rightarrow> kernel_state" where
  "print_stats B st =
     (let st = emit Timer_print_stats st;
          st = emit Thread_print_stats st;
          st = (if FILESYS B then emit Disk_print_stats st else st);
          st = emit Console_print_stats st;
          st = emit Kbd_print_stats st
      in if USERPROG B then emit Exception_print_stats st else st)"

text \<open>\<^verbatim>\<open>power_off\<close> ends in \<^verbatim>\<open>for (;;);\<close> and never returns.\<close>

definition power_off :: "build \<Rightarrow> kernel_state \<Rightarrow> stop \<times> kernel_state" where
  "power_off B st =
     (let st = (if FILESYS B then emit Filesys_done st else st);
          st = print_stats B st;
          st = printf (''Powering off...'' @ [newline]) st;
          st = emit (Outw 0x604 0x2000) st
      in (Power_off, st))"

definition usage_text :: "build \<Rightarrow> string" where
  "usage_text B =
     [newline] @ ''Command line syntax: [OPTION...] [ACTION...]'' @ [newline] @
     ''Options must precede actions.'' @ [newline] @
     ''Actions are executed in the order specified.'' @ [newline] @
     [newline] @ ''Available actions:'' @ [newline] @
     (if USERPROG B
      then ''  run 'PROG [ARG...]' Run PROG and wait for it to complete.'' @ [newline]
      else ''  run TEST           Run TEST.'' @ [newline]) @
     (if FILESYS B
      then ''  ls                 List files in the root directory.'' @ [newline] @
           ''  cat FILE           Print FILE to the console.'' @ [newline] @
           ''  rm FILE            Delete FILE.'' @ [newline] @
           ''Use these actions indirectly via `pintos' -g and -p options:'' @ [newline] @
           ''  put FILE           Put FILE into file system from scratch disk.'' @ [newline] @
           ''  get FILE           Get FILE from file system into scratch disk.'' @ [newline]
      else []) @
     [newline] @ ''Options:'' @ [newline] @
     ''  -h                 Print this help message and power off.'' @ [newline] @
     ''  -q                 Power off VM after actions or on panic.'' @ [newline] @
     ''  -f                 Format file system disk during startup.'' @ [newline] @
     ''  -rs=SEED           Set random number seed to SEED.'' @ [newline] @
     ''  -mlfqs             Use multi-level feedback queue scheduler.'' @ [newline] @
     (if USERPROG B
      then ''  -ul=COUNT          Limit user memory to COUNT pages.'' @ [newline]
      else [])"

definition usage :: "build \<Rightarrow> kernel_state \<Rightarrow> stop \<times> kernel_state" where
  "usage B st = power_off B (printf (usage_text B) st)"

section \<open>Boot-argument extractor\<close>

text \<open>
  The first loop of \<^verbatim>\<open>read_command_line\<close>, with \<open>n\<close> passes left, at index \<open>i\<close> and cursor
  \<open>p\<close>; \<open>end_p\<close> is the window length. The static array \<^verbatim>\<open>argv\<close> has
  \<^verbatim>\<open>LOADER_ARGS_LEN / 2 + 1\<close> slots, so a store at a larger index leaves the array.
\<close>

fun scan_args :: "char list \<Rightarrow> nat \<Rightarrow> nat \<Rightarrow> nat \<Rightarrow> nat \<Rightarrow> stop + nat list" where
  "scan_args m end_p 0 i p = Inr []"
| "scan_args m end_p (Suc n) i p =
     (if end_p \<le> p then Inl (Panic ''command line arguments overflow'')
      else if end_p div 2 < i then Inl Argv_overflow
      else (case strnlen m p (end_p - p) of
              None \<Rightarrow> Inl Bad_address
            | Some l \<Rightarrow>
                (case scan_args m end_p n (Suc i) (p + l + 1) of
                   Inl e \<Rightarrow> Inl e
                 | Inr ps \<Rightarrow> Inr (p # ps))))"

text \<open>The echo loop: \<^verbatim>\<open>strchr (argv[i], ' ')\<close> decides whether the token is quoted.\<close>

definition echo_token :: "string \<Rightarrow> string" where
  "echo_token s =
     (if CHR '' '' \<in> set s then '' '' @ [CHR 0x27] @ s @ [CHR 0x27] else '' '' @ s)"

fun echo_args :: "nat list \<Rightarrow> kernel_state \<Rightarrow> kernel_state result" where
  "echo_args [] st = Inr st"
| "echo_args (p # ps) st =
     (case c_str (mem st) p of
        None \<Rightarrow> Inl (Bad_address, st)
      | Some s \<Rightarrow> echo_args ps (printf (echo_token s) st))"

definition read_command_line :: "machine \<Rightarrow> kernel_state \<Rightarrow> (nat list \<times> kernel_state) result" where
  "read_command_line M st =
     (let end_p = LOADER_ARGS_LEN M;
          argc = sint (LOADER_ARG_CNT M)
      in case scan_args (mem st) end_p (nat argc) 0 0 of
           Inl e \<Rightarrow> Inl (e, st)
         | Inr argv \<Rightarrow>
             if argc < 0 \<or> int (end_p div 2) < argc then Inl (Argv_overflow, st)
             else (case echo_args argv (printf ''Kernel command line:'' st) of
                     Inl h \<Rightarrow> Inl h
                   | Inr st' \<Rightarrow> Inr (argv, printf [newline] st')))"

section \<open>Option parser\<close>

text \<open>
  Modelled from the spec: \<^verbatim>\<open>random_init\<close> is not in the file. The configuration of the spec
  has a field for the random seed; \<^verbatim>\<open>random_init (seed)\<close> sets it to the seed it is given.
  The call is traced like every call into another subsystem.
\<close>

definition random_init :: "32 word \<Rightarrow> kernel_state \<Rightarrow> kernel_state" where
  "random_init seed st = emit (Random_init seed) (st\<lparr>random_seed := Some seed\<rparr>)"

text \<open>
  The \<^verbatim>\<open>strcmp\<close> chain of \<^verbatim>\<open>parse_options\<close>, in the order of the source. \<open>name\<close> and \<open>value\<close>
  are the two pointers \<^verbatim>\<open>strtok_r\<close> returned.
\<close>

definition apply_option ::
  "build \<Rightarrow> nat option \<Rightarrow> nat option \<Rightarrow> kernel_state \<Rightarrow> kernel_state result" where
  "apply_option B name value st =
     (case name of
        None \<Rightarrow> Inl (Null_pointer, st)
      | Some np \<Rightarrow>
          (case c_str (mem st) np of
             None \<Rightarrow> Inl (Bad_address, st)
           | Some n \<Rightarrow>
               if n = ''-h'' then Inl (usage B st)
               else if n = ''-q'' then Inr (st\<lparr>power_off_when_done := True\<rparr>)
               else if FILESYS B \<and> n = ''-f'' then Inr (st\<lparr>format_filesys := True\<rparr>)
               else if n = ''-rs'' then
                 (case atoi (mem st) value of
                    Inl e \<Rightarrow> Inl (e, st)
                  | Inr v \<Rightarrow> Inr (random_init v st))
               else if n = ''-mlfqs'' then Inr (st\<lparr>thread_mlfqs := True\<rparr>)
               else if USERPROG B \<and> n = ''-ul'' then
                 (case atoi (mem st) value of
                    Inl e \<Rightarrow> Inl (e, st)
                  | Inr v \<Rightarrow> Inr (st\<lparr>user_page_limit := scast v\<rparr>))
               else if USERPROG B \<and> n = ''-threads-tests'' then Inr (st\<lparr>thread_tests := True\<rparr>)
               else Inl (Panic (''unknown option `'' @ n @ [CHR 0x27] @ '' (use -h for help)''), st)))"

text \<open>
  \<^verbatim>\<open>for (; *argv != NULL && **argv == '-'; argv++)\<close>. The vector is the list of its non-null
  pointers; the empty list is the terminator.
\<close>

fun parse_options :: "build \<Rightarrow> kernel_state \<Rightarrow> nat list \<Rightarrow> (nat list \<times> kernel_state) result" where
  "parse_options B st [] = Inr ([], st)"
| "parse_options B st (p # argv) =
     (if length (mem st) \<le> p then Inl (Bad_address, st)
      else if mem st ! p \<noteq> CHR ''-'' then Inr (p # argv, st)
      else (case strtok_r (mem st) p ''='' of
              None \<Rightarrow> Inl (Bad_address, st)
            | Some (name, save_ptr, m1) \<Rightarrow>
                (case strtok_r m1 save_ptr [] of
                   None \<Rightarrow> Inl (Bad_address, st\<lparr>mem := m1\<rparr>)
                 | Some (value, save_ptr', m2) \<Rightarrow>
                     (case apply_option B name value (st\<lparr>mem := m2\<rparr>) of
                        Inl h \<Rightarrow> Inl h
                      | Inr st' \<Rightarrow> parse_options B st' argv))))"

section \<open>Action dispatcher\<close>

record action =
  a_name :: string
  a_argc :: int
  a_function :: handler

definition actions :: "build \<Rightarrow> action list" where
  "actions B =
     \<lparr>a_name = ''run'', a_argc = 2, a_function = Run_task\<rparr> #
     (if FILESYS B
      then [\<lparr>a_name = ''ls'', a_argc = 1, a_function = Fsutil_ls\<rparr>,
            \<lparr>a_name = ''cat'', a_argc = 2, a_function = Fsutil_cat\<rparr>,
            \<lparr>a_name = ''rm'', a_argc = 2, a_function = Fsutil_rm\<rparr>,
            \<lparr>a_name = ''put'', a_argc = 2, a_function = Fsutil_put\<rparr>,
            \<lparr>a_name = ''get'', a_argc = 2, a_function = Fsutil_get\<rparr>]
      else [])"

text \<open>\<^verbatim>\<open>run_task\<close> reads \<^verbatim>\<open>argv[1]\<close>; both \<^verbatim>\<open>printf\<close> calls read the string it points to.\<close>

definition run_task :: "build \<Rightarrow> kernel_state \<Rightarrow> nat list \<Rightarrow> kernel_state result" where
  "run_task B st argv =
     (case argv of
        name # task # rest \<Rightarrow>
          (case c_str (mem st) task of
             None \<Rightarrow> Inl (Bad_address, st)
           | Some t \<Rightarrow>
               (let st = printf (''Executing '' @ [CHR 0x27] @ t @ [CHR 0x27] @ '':'' @ [newline]) st;
                    st = (if USERPROG B
                          then (if thread_tests st then emit (Run_test t) st
                                else emit Process_wait (emit (Process_create_initd t) st))
                          else emit (Run_test t) st)
                in Inr (printf (''Execution of '' @ [CHR 0x27] @ t @ [CHR 0x27] @ '' complete.'' @ [newline]) st)))
      | _ \<Rightarrow> Inl (Null_pointer, st))"

definition call_action :: "build \<Rightarrow> handler \<Rightarrow> kernel_state \<Rightarrow> nat list \<Rightarrow> kernel_state result" where
  "call_action B f st argv =
     (case f of Run_task \<Rightarrow> run_task B st argv | _ \<Rightarrow> Inr (emit (Fsutil f argv) st))"

text \<open>
  \<^verbatim>\<open>while (*argv != NULL)\<close>: look the name up in table order, check that \<^verbatim>\<open>argv[1]\<close> to
  \<^verbatim>\<open>argv[a->argc - 1]\<close> are not null, call the handler, advance by \<^verbatim>\<open>a->argc\<close>.
\<close>

function run_actions :: "build \<Rightarrow> kernel_state \<Rightarrow> nat list \<Rightarrow> kernel_state result" where
  "run_actions B st [] = Inr st"
| "run_actions B st (p # argv) =
     (case c_str (mem st) p of
        None \<Rightarrow> Inl (Bad_address, st)
      | Some s \<Rightarrow>
          (case find (\<lambda>a. a_name a = s) (actions B) of
             None \<Rightarrow> Inl (Panic (''unknown action `'' @ s @ [CHR 0x27] @ '' (use -h for help)''), st)
           | Some a \<Rightarrow>
               if int (length (p # argv)) < a_argc a
               then Inl (Panic (''action `'' @ s @ [CHR 0x27] @ '' requires '' @ show_int (a_argc a - 1)
                                 @ '' argument(s)''), st)
               else (case call_action B (a_function a) st (p # argv) of
                       Inl h \<Rightarrow> Inl h
                     | Inr st' \<Rightarrow> run_actions B st' (drop (nat (a_argc a)) (p # argv)))))"
  by pat_completeness auto
termination
proof (relation "measure (\<lambda>(B, st, argv). length argv)")
  show "wf (measure (\<lambda>(B, st, argv). length argv))" by simp
next
  fix B :: build and st :: kernel_state and p :: nat and argv :: "nat list"
    and s :: string and a :: action and st' :: kernel_state
  assume "find (\<lambda>a. a_name a = s) (actions B) = Some a"
  then have "a \<in> set (actions B)" by (auto simp add: find_Some_iff)
  then have "1 \<le> a_argc a" by (auto simp add: actions_def split: if_splits)
  then show "((B, st', drop (nat (a_argc a)) (p # argv)), (B, st, p # argv))
      \<in> measure (\<lambda>(B, st, argv). length argv)"
    by auto
qed

section \<open>The boot sequence\<close>

text \<open>
  \<^verbatim>\<open>bss_init\<close> clears the uninitialised statics of the file with one \<^verbatim>\<open>memset\<close>.
\<close>

definition bss_init :: "kernel_state \<Rightarrow> kernel_state" where
  "bss_init st = emit Memset_bss (st\<lparr>base_pml4 := 0, format_filesys := False,
     power_off_when_done := False, thread_tests := False\<rparr>)"

definition start_devices :: "build \<Rightarrow> kernel_state \<Rightarrow> kernel_state" where
  "start_devices B st =
     (let st = (if USERPROG B then emit Gdt_init (emit Tss_init st) else st);
          st = emit Intr_init st;
          st = emit Timer_init st;
          st = emit Kbd_init st;
          st = emit Input_init st;
          st = (if USERPROG B then emit Syscall_init (emit Exception_init st) else st);
          st = emit Thread_start st;
          st = emit Serial_init_queue st;
          st = emit Timer_calibrate st;
          st = (if FILESYS B then emit (Filesys_init (format_filesys st)) (emit Disk_init st) else st);
          st = (if VM B then emit Vm_init st else st)
      in printf (''Boot complete.'' @ [newline]) st)"

text \<open>
  \<^verbatim>\<open>main\<close> never returns: it ends in a fatal stop, in \<^verbatim>\<open>power_off\<close> or in \<^verbatim>\<open>thread_exit\<close>.
  The result is \<open>None\<close> when the loop of \<^verbatim>\<open>paging_init\<close> does not end.
\<close>

definition main :: "build \<Rightarrow> machine \<Rightarrow> kernel_state \<Rightarrow> (stop \<times> kernel_state) option" where
  "main B M st0 =
     (case read_command_line M (bss_init st0) of
        Inl h \<Rightarrow> Some h
      | Inr (argv, st) \<Rightarrow>
          (case parse_options B st argv of
             Inl h \<Rightarrow> Some h
           | Inr (argv, st) \<Rightarrow>
               (let st = emit Thread_init st;
                    st = emit Console_init st;
                    mem_end = palloc_init_result M;
                    st = emit Palloc_init st;
                    st = emit Malloc_init st
                in case paging_init M mem_end st of
                     None \<Rightarrow> None
                   | Some (Inl h) \<Rightarrow> Some h
                   | Some (Inr st) \<Rightarrow>
                       (case run_actions B (start_devices B st) argv of
                          Inl h \<Rightarrow> Some h
                        | Inr st \<Rightarrow>
                            if power_off_when_done st then Some (power_off B st)
                            else Some (Thread_exit, emit Thread_exit_call st)))))"

section \<open>Example inputs\<close>

definition boot_state :: kernel_state where
  "boot_state = \<lparr>base_pml4 = 0, format_filesys = False, power_off_when_done = False,
     thread_tests = False, thread_mlfqs = False, user_page_limit = - 1, random_seed = None,
     mem = [], page_table = Map.empty, active_pml4 = 0, calls = []\<rparr>"

definition example_machine :: machine where
  "example_machine = \<lparr>PGBITS = 12, PTE_P = 1, PTE_W = 2, KERN_BASE = 0x8004000000,
     start = 0x8004001000, end_kernel_text = 0x8004002000,
     LOADER_ARGS_LEN = 128, LOADER_ARG_CNT = 0, palloc_init_result = 0x3000,
     palloc_root = 0x8004100000, pml4e_walk = (\<lambda>pml4 va. pml4 + va)\<rparr>"

text \<open>
  Argument windows: three strings followed by bytes that are not part of the window, and
  option and action tokens.
\<close>

definition three_args :: "char list" where
  "three_args = ''ab'' @ [NUL] @ ''cd'' @ [NUL] @ ''ef'' @ [NUL] @ ''XY'' @ [NUL]"

definition seed_arg :: "char list" where
  "seed_arg = ''-rs=1234'' @ [NUL]"

definition quiet_seed_run :: "char list" where
  "quiet_seed_run = ''-q'' @ [NUL] @ ''-rs=1234'' @ [NUL] @ ''run'' @ [NUL] @ ''a'' @ [NUL]"

definition run_echo_test :: "char list" where
  "run_echo_test = ''run'' @ [NUL] @ ''echoTest'' @ [NUL]"

definition cat_only :: "char list" where
  "cat_only = ''cat'' @ [NUL]"

definition bare_seed :: "char list" where
  "bare_seed = ''-rs'' @ [NUL]"

text \<open>
  The names the \<^verbatim>\<open>strcmp\<close> chain of \<^verbatim>\<open>parse_options\<close> accepts and returns from, in its
  order (\<open>-h\<close> does not return).
\<close>

definition option_names :: "build \<Rightarrow> string list" where
  "option_names B =
     [''-q''] @ (if FILESYS B then [''-f''] else []) @ [''-rs'', ''-mlfqs''] @
     (if USERPROG B then [''-ul'', ''-threads-tests''] else [])"

text \<open>
  The separator of the token at \<open>p\<close>: the place of its first \<open>=\<close>, if it has one before its
  terminator. \<open>split_all m ps\<close> is \<open>m\<close> with the separators of the tokens \<open>ps\<close> turned into
  terminators, and no other byte changed.
\<close>

definition separator :: "char list \<Rightarrow> nat \<Rightarrow> nat option" where
  "separator m p =
     (let s = p + length (takeWhile (\<lambda>c. c \<noteq> CHR ''='' \<and> c \<noteq> NUL) (drop p m))
      in if s < length m \<and> m ! s = CHR ''='' then Some s else None)"

definition split_all :: "char list \<Rightarrow> nat list \<Rightarrow> char list" where
  "split_all m ps =
     map (\<lambda>i. if Some i \<in> set (map (separator m) ps) then NUL else m ! i) [0..<length m]"

definition begins_option :: "char list \<Rightarrow> nat \<Rightarrow> bool" where
  "begins_option m p \<longleftrightarrow> p < length m \<and> m ! p = CHR ''-''"

text \<open>
  Option tokens as the loader packs them, a name and the value after the separator if
  there is one: their bytes before and after \<^verbatim>\<open>parse_options\<close> has split them, and where
  they start.
\<close>

fun token_bytes :: "string \<times> string option \<Rightarrow> char list" where
  "token_bytes (n, None) = n @ [NUL]"
| "token_bytes (n, Some v) = n @ CHR ''='' # v @ [NUL]"

fun split_bytes :: "string \<times> string option \<Rightarrow> char list" where
  "split_bytes (n, None) = n @ [NUL]"
| "split_bytes (n, Some v) = n @ NUL # v @ [NUL]"

fun token_ptrs :: "nat \<Rightarrow> (string \<times> string option) list \<Rightarrow> nat list" where
  "token_ptrs p [] = []"
| "token_ptrs p (t # ts) = p # token_ptrs (p + length (token_bytes t)) ts"

text \<open>
  The tokens \<^verbatim>\<open>parse_options\<close> returns from: a name of the \<^verbatim>\<open>strcmp\<close> chain other than
  \<open>-h\<close>, with a value that is not empty if given, and given for \<open>-rs\<close> and \<open>-ul\<close>. For such a
  token \<open>option_effect\<close> is the branch of the chain that the name selects.
\<close>

definition valid_token :: "build \<Rightarrow> string \<times> string option \<Rightarrow> bool" where
  "valid_token B t \<longleftrightarrow>
     fst t \<in> set (option_names B) \<and>
     (case snd t of
        None \<Rightarrow> fst t \<noteq> ''-rs'' \<and> fst t \<noteq> ''-ul''
      | Some v \<Rightarrow> v \<noteq> [] \<and> NUL \<notin> set v)"

definition option_effect :: "string \<times> string option \<Rightarrow> kernel_state \<Rightarrow> kernel_state" where
  "option_effect t st =
     (if fst t = ''-q'' then st\<lparr>power_off_when_done := True\<rparr>
      else if fst t = ''-f'' then st\<lparr>format_filesys := True\<rparr>
      else if fst t = ''-rs'' then
        (case snd t of None \<Rightarrow> st | Some v \<Rightarrow> random_init (atoi_str v) st)
      else if fst t = ''-mlfqs'' then st\<lparr>thread_mlfqs := True\<rparr>
      else if fst t = ''-ul'' then
        (case snd t of None \<Rightarrow> st | Some v \<Rightarrow> st\<lparr>user_page_limit := scast (atoi_str v)\<rparr>)
      else if fst t = ''-threads-tests'' then st\<lparr>thread_tests := True\<rparr>
      else st)"

definition is_random_init :: "event \<Rightarrow> bool" where
  "is_random_init e = (case e of Random_init s \<Rightarrow> True | _ \<Rightarrow> False)"

text \<open>
  Further inputs: a machine with no page left for the root, a window whose third string
  runs on past its end, an option followed by an action whose argument holds a \<open>=\<close>, and
  tokens that give the seed twice.
\<close>

definition no_root_machine :: machine where
  "no_root_machine = example_machine\<lparr>palloc_root := 0\<rparr>"

definition overrun_args :: "char list" where
  "overrun_args = ''ab'' @ [NUL] @ ''cd'' @ [NUL] @ ''efXY'' @ [NUL]"

definition option_then_action :: "char list" where
  "option_then_action = ''-q=1'' @ [NUL] @ ''run'' @ [NUL] @ ''a=b'' @ [NUL]"

definition seed_twice :: "(string \<times> string option) list" where
  "seed_twice = [(''-rs'', Some ''1''), (''-q'', None), (''-rs'', Some ''2''), (''-mlfqs'', None)]"

text \<open>Console output, as opposed to a call into another subsystem.\<close>

definition is_printf :: "event \<Rightarrow> bool" where
  "is_printf e = (case e of Printf s \<Rightarrow> True | _ \<Rightarrow> False)"

definition plain_build :: build where
  "plain_build = \<lparr>FILESYS = False, USERPROG = False, VM = False\<rparr>"

text \<open>Two machines whose table walk fails: for every address, and for the first page only.\<close>

definition no_leaf_machine :: machine where
  "no_leaf_machine = example_machine\<lparr>pml4e_walk := (\<lambda>pml4 va. 0)\<rparr>"

definition one_hole_machine :: machine where
  "one_hole_machine =
     example_machine\<lparr>pml4e_walk := (\<lambda>pml4 va. if va = 0x8004000000 then 0 else pml4 + va)\<rparr>"

text \<open>
  Memory \<open>m'\<close> differs from \<open>m\<close> at most in that separators \<open>=\<close> have become terminators.
\<close>

definition split_only :: "char list \<Rightarrow> char list \<Rightarrow> bool" where
  "split_only m m' = list_all2 (\<lambda>a b. a = b \<or> (a = CHR ''='' \<and> b = NUL)) m m'"

text \<open>The state a step leaves behind, whether it returned or stopped.\<close>

definition result_state :: "kernel_state result \<Rightarrow> kernel_state" where
  "result_state r = (case r of Inl h \<Rightarrow> snd h | Inr st \<Rightarrow> st)"

definition result_state2 :: "('a \<times> kernel_state) result \<Rightarrow> kernel_state" where
  "result_state2 r = (case r of Inl h \<Rightarrow> snd h | Inr x \<Rightarrow> snd x)"

section \<open>Page-table entries: the flag bits\<close>

lemma low_bitsD:
  fixes w :: "'a::len word"
  assumes "drop_bit k w = 0" "bit w m"
  shows "m < k"
proof (rule ccontr)
  assume "\<not> m < k"
  with assms(2) have "bit (drop_bit k w) (m - k)" by (simp add: bit_drop_bit_eq)
  with assms(1) show False by simp
qed

lemma low_bitsI:
  fixes w :: "'a::len word"
  assumes "\<And>m. bit w m \<Longrightarrow> m < k"
  shows "drop_bit k w = 0"
proof (rule bit_eqI)
  fix n
  show "bit (drop_bit k w) n = bit (0::'a word) n"
    using assms[of "k + n"] by (auto simp add: bit_drop_bit_eq)
qed

lemma scast_low_bits:
  fixes w :: "32 word"
  assumes "k < 31" "drop_bit k w = 0"
  shows "bit (scast w :: 64 word) n \<longleftrightarrow> bit w n"
  using low_bitsD[OF assms(2), of n] low_bitsD[OF assms(2), of 31] assms(1)
  by (auto simp add: bit_word_scast_iff dest: bit_imp_le_length)

lemma aligned_low_bits:
  fixes pa :: "64 word"
  assumes "take_bit k pa = 0" "n < k"
  shows "\<not> bit pa n"
proof
  assume "bit pa n"
  with assms(2) have "bit (take_bit k pa) n" by (simp add: bit_take_bit_iff)
  with assms(1) show False by simp
qed

lemma page_perm_bits:
  "bit (page_perm M va) n \<longleftrightarrow>
     (if in_kernel_text M va then bit (PTE_P M) n \<and> \<not> bit (PTE_W M) n
      else bit (PTE_P M) n \<or> bit (PTE_W M) n)"
  by (auto simp add: page_perm_def in_kernel_text_def Let_def bit_and_iff bit_or_iff bit_not_iff
      dest: bit_imp_le_length)

lemma page_perm_low:
  assumes "machine_ok M"
  shows "drop_bit (PGBITS M) (page_perm M va) = 0"
proof (rule low_bitsI)
  fix m assume "bit (page_perm M va) m"
  then have "bit (PTE_P M) m \<or> bit (PTE_W M) m"
    by (simp add: page_perm_bits split: if_splits)
  with assms show "m < PGBITS M"
    by (auto simp add: machine_ok_def dest: low_bitsD)
qed

lemma pte_of_bits:
  assumes "machine_ok M" "page_aligned M pa"
  shows "bit (pte_of M pa) n \<longleftrightarrow>
     (if n < PGBITS M then bit (page_perm M (ptov M pa)) n else bit pa n)"
proof -
  have k: "PGBITS M < 31" using assms(1) by (simp add: machine_ok_def)
  have "bit (scast (page_perm M (ptov M pa)) :: 64 word) n \<longleftrightarrow> bit (page_perm M (ptov M pa)) n"
    by (rule scast_low_bits[OF k page_perm_low[OF assms(1)]])
  moreover have "n < PGBITS M \<Longrightarrow> \<not> bit pa n"
    using assms(2) by (auto simp add: page_aligned_def dest: aligned_low_bits)
  moreover have "bit (page_perm M (ptov M pa)) n \<Longrightarrow> n < PGBITS M"
    using page_perm_low[OF assms(1)] by (rule low_bitsD)
  ultimately show ?thesis by (auto simp add: pte_of_def bit_or_iff)
qed

lemma flag_bits:
  assumes "machine_ok M"
  shows "bit (scast (PTE_P M) :: 64 word) n \<longleftrightarrow> bit (PTE_P M) n"
    and "bit (scast (PTE_W M) :: 64 word) n \<longleftrightarrow> bit (PTE_W M) n"
proof -
  from assms have k: "PGBITS M < 31" and p: "drop_bit (PGBITS M) (PTE_P M) = 0"
    and w: "drop_bit (PGBITS M) (PTE_W M) = 0"
    by (simp_all add: machine_ok_def)
  show "bit (scast (PTE_P M) :: 64 word) n \<longleftrightarrow> bit (PTE_P M) n"
    by (rule scast_low_bits[OF k p])
  show "bit (scast (PTE_W M) :: 64 word) n \<longleftrightarrow> bit (PTE_W M) n"
    by (rule scast_low_bits[OF k w])
qed

lemma word_neq_0_bit:
  fixes w :: "'a::len word"
  shows "w \<noteq> 0 \<longleftrightarrow> (\<exists>n. bit w n)"
  by (auto simp add: bit_eq_iff dest: bit_imp_le_length)

lemma pte_of_present:
  assumes "machine_ok M" "page_aligned M pa"
  shows "pte_present M (pte_of M pa)"
proof -
  from assms(1) obtain n where n: "bit (PTE_P M) n" "\<not> bit (PTE_W M) n"
    by (auto simp add: machine_ok_def word_neq_0_bit bit_and_iff bit_not_iff)
  from assms(1) n(1) have "n < PGBITS M" by (auto simp add: machine_ok_def dest: low_bitsD)
  with n have "bit (pte_of M pa AND scast (PTE_P M)) n"
    by (simp add: bit_and_iff pte_of_bits[OF assms] flag_bits[OF assms(1)] page_perm_bits)
  then show ?thesis by (auto simp add: pte_present_def word_neq_0_bit)
qed

lemma pte_of_writable:
  assumes "machine_ok M" "page_aligned M pa"
  shows "pte_writable M (pte_of M pa) \<longleftrightarrow> \<not> in_kernel_text M (ptov M pa)"
proof (cases "in_kernel_text M (ptov M pa)")
  case True
  have "\<not> bit (pte_of M pa AND scast (PTE_W M)) n" for n
    using True assms(1)
    by (auto simp add: bit_and_iff pte_of_bits[OF assms] flag_bits[OF assms(1)] page_perm_bits
        machine_ok_def dest: low_bitsD)
  with True show ?thesis by (simp add: pte_writable_def word_neq_0_bit)
next
  case False
  from assms(1) obtain n where n: "bit (PTE_W M) n"
    by (auto simp add: machine_ok_def word_neq_0_bit)
  from assms(1) n have "n < PGBITS M" by (auto simp add: machine_ok_def dest: low_bitsD)
  with n False have "bit (pte_of M pa AND scast (PTE_W M)) n"
    by (simp add: bit_and_iff pte_of_bits[OF assms] flag_bits[OF assms(1)] page_perm_bits)
  with False show ?thesis by (auto simp add: pte_writable_def word_neq_0_bit)
qed

lemma pte_of_frame:
  assumes "machine_ok M" "page_aligned M pa"
  shows "pte_frame M (pte_of M pa) = pa"
proof (rule bit_eqI)
  fix n
  have low: "n < PGBITS M \<Longrightarrow> \<not> bit pa n"
    using assms(2) by (auto simp add: page_aligned_def dest: aligned_low_bits)
  show "bit (pte_frame M (pte_of M pa)) n = bit pa n"
  proof (cases "n < PGBITS M")
    case True
    with low show ?thesis by (simp add: pte_frame_def bit_push_bit_iff)
  next
    case False
    then have "PGBITS M + (n - PGBITS M) = n" by simp
    with False show ?thesis
      by (auto simp add: pte_frame_def bit_push_bit_iff bit_drop_bit_eq pte_of_bits[OF assms]
        dest: bit_imp_le_length)
  qed
qed

section \<open>The mapping loop in closed form\<close>

lemma ceil_div_less:
  fixes S :: nat
  assumes "0 < S"
  shows "i < (N + S - 1) div S \<longleftrightarrow> i * S < N"
proof -
  have "i < (N + S - 1) div S \<longleftrightarrow> Suc i \<le> (N + S - 1) div S" by auto
  also have "\<dots> \<longleftrightarrow> Suc i * S \<le> N + S - 1"
    using assms by (simp add: less_eq_div_iff_mult_less_eq)
  also have "\<dots> \<longleftrightarrow> i * S < N" using assms by auto
  finally show ?thesis .
qed

lemma page_count_less: "i < page_count M mem_end \<longleftrightarrow> i * 2 ^ PGBITS M < unat mem_end"
  unfolding page_count_def by (rule ceil_div_less) simp

lemma unat_PGSIZE: "PGBITS M < 64 \<Longrightarrow> unat (PGSIZE M) = 2 ^ PGBITS M"
proof -
  assume k: "PGBITS M < 64"
  have "(2 ^ PGBITS M :: 64 word) = of_nat (2 ^ PGBITS M)" by simp
  then have "unat (PGSIZE M) = 2 ^ PGBITS M mod 2 ^ 64"
    unfolding PGSIZE_def by (simp only: unat_of_nat) simp
  moreover from k have "(2::nat) ^ PGBITS M < 2 ^ 64" by (rule power_strict_increasing) simp
  ultimately show ?thesis by simp
qed

lemma paging_loop_closed:
  assumes k: "PGBITS M < 64"
    and nowrap: "unat mem_end + 2 ^ PGBITS M \<le> 2 ^ 64"
  shows "unat pa = i * 2 ^ PGBITS M \<Longrightarrow> i \<le> page_count M mem_end \<Longrightarrow>
     paging_loop M pml4 mem_end pa tbl = Some (map_pages M pml4 pa (page_count M mem_end - i) tbl)"
proof (induction "page_count M mem_end - i" arbitrary: i pa tbl)
  case 0
  then have "\<not> i < page_count M mem_end" by simp
  then have "\<not> i * 2 ^ PGBITS M < unat mem_end"
    by (simp add: page_count_less)
  with "0.prems"(1) have "\<not> pa < mem_end" by (simp add: word_less_nat_alt)
  with "0.hyps" show ?case by (subst paging_loop.simps) simp
next
  case (Suc n)
  then have lt: "i < page_count M mem_end" by simp
  then have "i * 2 ^ PGBITS M < unat mem_end"
    by (simp add: page_count_less)
  with Suc.prems(1) have less: "pa < mem_end" and u: "unat pa < unat mem_end"
    by (simp_all add: word_less_nat_alt)
  from u nowrap have "unat pa + unat (PGSIZE M) < 2 ^ 64"
    by (simp add: unat_PGSIZE[OF k])
  then have "unat (pa + PGSIZE M) = unat pa + unat (PGSIZE M)"
    by (simp add: unat_add_lem[THEN iffD1])
  with Suc.prems(1) have next_pa: "unat (pa + PGSIZE M) = Suc i * 2 ^ PGBITS M"
    by (simp add: unat_PGSIZE[OF k])
  from Suc.hyps(2) have n: "n = page_count M mem_end - Suc i" by simp
  from lt have le: "Suc i \<le> page_count M mem_end" by simp
  have "paging_loop M pml4 mem_end (pa + PGSIZE M) (map_page M pml4 pa tbl)
      = Some (map_pages M pml4 (pa + PGSIZE M) (page_count M mem_end - Suc i) (map_page M pml4 pa tbl))"
    by (rule Suc.hyps(1)[OF n next_pa le])
  moreover from Suc.hyps(2) have "page_count M mem_end - i = Suc (page_count M mem_end - Suc i)"
    by simp
  ultimately show ?case using less
    by (subst paging_loop.simps) simp
qed

lemma map_page_other:
  "pml4e_walk M pml4 (ptov M pa) \<noteq> s \<Longrightarrow> map_page M pml4 pa tbl s = tbl s"
  by (simp add: map_page_def Let_def)

lemma map_page_null: "map_page M pml4 pa tbl 0 = tbl 0"
  by (simp add: map_page_def Let_def)

lemma map_page_hit:
  "pml4e_walk M pml4 (ptov M pa) = s \<Longrightarrow> s \<noteq> 0 \<Longrightarrow> map_page M pml4 pa tbl s = Some (pte_of M pa)"
  by (auto simp add: map_page_def Let_def pte_of_def)

lemma page_step: "pa + PGSIZE M + of_nat j * PGSIZE M = pa + of_nat (Suc j) * PGSIZE M"
  by (simp add: algebra_simps)

lemma map_pages_other:
  "(\<And>j. j < n \<Longrightarrow> pml4e_walk M pml4 (ptov M (pa + of_nat j * PGSIZE M)) \<noteq> s) \<Longrightarrow>
     map_pages M pml4 pa n tbl s = tbl s"
proof (induction n arbitrary: pa tbl)
  case 0
  show ?case by simp
next
  case (Suc n)
  have "map_pages M pml4 (pa + PGSIZE M) n (map_page M pml4 pa tbl) s = map_page M pml4 pa tbl s"
  proof (rule Suc.IH)
    fix j assume "j < n"
    then have "Suc j < Suc n" by simp
    from Suc.prems[OF this] show "pml4e_walk M pml4 (ptov M (pa + PGSIZE M + of_nat j * PGSIZE M)) \<noteq> s"
      unfolding page_step .
  qed
  moreover have "pml4e_walk M pml4 (ptov M pa) \<noteq> s"
    using Suc.prems[of 0] by simp
  ultimately show ?case by (simp add: map_page_other)
qed

lemma map_pages_null: "map_pages M pml4 pa n tbl 0 = tbl 0"
  by (induction n arbitrary: pa tbl) (simp_all add: map_page_null)

lemma map_pages_hit:
  "j < n \<Longrightarrow> pml4e_walk M pml4 (ptov M (pa + of_nat j * PGSIZE M)) = s \<Longrightarrow> s \<noteq> 0 \<Longrightarrow>
   (\<And>j'. j' < n \<Longrightarrow> j' \<noteq> j \<Longrightarrow> pml4e_walk M pml4 (ptov M (pa + of_nat j' * PGSIZE M)) \<noteq> s) \<Longrightarrow>
   map_pages M pml4 pa n tbl s = Some (pte_of M (pa + of_nat j * PGSIZE M))"
proof (induction n arbitrary: pa tbl j)
  case 0
  then show ?case by simp
next
  case (Suc n)
  show ?case
  proof (cases j)
    case 0
    have "map_pages M pml4 (pa + PGSIZE M) n (map_page M pml4 pa tbl) s = map_page M pml4 pa tbl s"
    proof (rule map_pages_other)
      fix j' assume "j' < n"
      then have "Suc j' < Suc n" "Suc j' \<noteq> j" using 0 by simp_all
      from Suc.prems(4)[OF this]
      show "pml4e_walk M pml4 (ptov M (pa + PGSIZE M + of_nat j' * PGSIZE M)) \<noteq> s"
        unfolding page_step .
    qed
    moreover from Suc.prems(2,3) 0 have "map_page M pml4 pa tbl s = Some (pte_of M pa)"
      by (simp add: map_page_hit)
    ultimately show ?thesis using 0 by simp
  next
    case (Suc j0)
    have "map_pages M pml4 (pa + PGSIZE M) n (map_page M pml4 pa tbl) s
        = Some (pte_of M (pa + PGSIZE M + of_nat j0 * PGSIZE M))"
    proof (rule Suc.IH)
      from Suc.prems(1) Suc show "j0 < n" by simp
      from Suc.prems(2) Suc
      show "pml4e_walk M pml4 (ptov M (pa + PGSIZE M + of_nat j0 * PGSIZE M)) = s"
        unfolding page_step by simp
      show "s \<noteq> 0" by (rule Suc.prems(3))
      fix j' assume "j' < n" "j' \<noteq> j0"
      then have "Suc j' < Suc n" "Suc j' \<noteq> j" using Suc by simp_all
      from Suc.prems(4)[OF this]
      show "pml4e_walk M pml4 (ptov M (pa + PGSIZE M + of_nat j' * PGSIZE M)) \<noteq> s"
        unfolding page_step .
    qed
    then show ?thesis using Suc by (simp only: page_step map_pages.simps)
  qed
qed

lemma page_addr_unat:
  assumes k: "PGBITS M < 64" and "j * 2 ^ PGBITS M < 2 ^ 64"
  shows "unat (of_nat j * PGSIZE M :: 64 word) = j * 2 ^ PGBITS M"
proof -
  have "(of_nat j * PGSIZE M :: 64 word) = of_nat (j * 2 ^ PGBITS M)"
    by (simp add: PGSIZE_def)
  then have "unat (of_nat j * PGSIZE M :: 64 word) = (j * 2 ^ PGBITS M) mod 2 ^ 64"
    by (simp only: unat_of_nat) simp
  with assms(2) show ?thesis by simp
qed

lemma page_addr_aligned:
  "page_aligned M (of_nat j * PGSIZE M)"
  by (simp add: page_aligned_def PGSIZE_def take_bit_eq_0_iff)

lemma aligned_page_addr:
  assumes "page_aligned M pa"
  shows "of_nat (unat pa div 2 ^ PGBITS M) * PGSIZE M = pa"
    and "unat pa = (unat pa div 2 ^ PGBITS M) * 2 ^ PGBITS M"
proof -
  have "take_bit (PGBITS M) (unat pa) = unat (take_bit (PGBITS M) pa)"
    by (simp only: unsigned_take_bit_eq)
  with assms have "take_bit (PGBITS M) (unat pa) = 0" by (simp add: page_aligned_def)
  then have "unat pa mod 2 ^ PGBITS M = 0"
    by (simp only: take_bit_eq_mod)
  then show u: "unat pa = (unat pa div 2 ^ PGBITS M) * 2 ^ PGBITS M"
    by (simp add: mod_eq_0_iff_dvd)
  have "(of_nat (unat pa div 2 ^ PGBITS M) * PGSIZE M :: 64 word)
      = of_nat ((unat pa div 2 ^ PGBITS M) * 2 ^ PGBITS M)"
    by (simp add: PGSIZE_def)
  also have "\<dots> = of_nat (unat pa)" using u by simp
  finally show "of_nat (unat pa div 2 ^ PGBITS M) * PGSIZE M = pa" by simp
qed

lemma paging_init_result:
  assumes "PGBITS M < 64" "unat mem_end + 2 ^ PGBITS M \<le> 2 ^ 64" "palloc_root M \<noteq> 0"
  shows "paging_init M mem_end st = Some (Inr (emit Pml4_activate ((emit Palloc_get_page st)
     \<lparr>base_pml4 := palloc_root M,
      page_table := map_pages M (palloc_root M) 0 (page_count M mem_end) (page_table st),
      active_pml4 := palloc_root M\<rparr>)))"
proof -
  have "paging_loop M (palloc_root M) mem_end 0 (page_table st)
      = Some (map_pages M (palloc_root M) 0 (page_count M mem_end - 0) (page_table st))"
    by (rule paging_loop_closed[OF assms(1,2)]) simp_all
  with assms(3) show ?thesis by (simp add: paging_init_def Let_def emit_def)
qed

lemma visited_page:
  assumes k: "PGBITS M < 64" and nowrap: "unat mem_end + 2 ^ PGBITS M \<le> 2 ^ 64"
    and j: "j < page_count M mem_end"
  shows "page_aligned M (of_nat j * PGSIZE M)" and "of_nat j * PGSIZE M < mem_end"
    and "unat (of_nat j * PGSIZE M :: 64 word) = j * 2 ^ PGBITS M"
proof -
  from j have lt: "j * 2 ^ PGBITS M < unat mem_end" by (simp add: page_count_less)
  with nowrap have "j * 2 ^ PGBITS M < 2 ^ 64" by simp
  then show u: "unat (of_nat j * PGSIZE M :: 64 word) = j * 2 ^ PGBITS M"
    by (rule page_addr_unat[OF k])
  with lt show "of_nat j * PGSIZE M < mem_end" by (simp add: word_less_nat_alt)
  show "page_aligned M (of_nat j * PGSIZE M)" by (rule page_addr_aligned)
qed

section \<open>Claims about the address-space bootstrapper\<close>

text \<open>
  C1 (as amended). Let the header constants be well formed, let \<open>mem_end\<close> be at most
  \<open>2 ^ 64 - PGSIZE\<close> and let the root frame be available. Then \<^verbatim>\<open>paging_init\<close> returns, and
  for every page-aligned physical address below \<open>mem_end\<close> whose table walk yields a leaf
  entry that no other page below \<open>mem_end\<close> shares, that entry holds the address, is present,
  and is writable exactly when the virtual address lies outside the kernel text.
\<close>

theorem paging_init_entry:
  assumes ok: "machine_ok M"
    and nowrap: "unat mem_end + 2 ^ PGBITS M \<le> 2 ^ 64"
    and root: "palloc_root M \<noteq> 0"
    and al: "page_aligned M pa" and lt: "pa < mem_end"
    and leaf: "pml4e_walk M (palloc_root M) (ptov M pa) \<noteq> 0"
    and own: "\<forall>pa'. page_aligned M pa' \<and> pa' < mem_end \<and> pa' \<noteq> pa \<longrightarrow>
        pml4e_walk M (palloc_root M) (ptov M pa') \<noteq> pml4e_walk M (palloc_root M) (ptov M pa)"
  shows "\<exists>st' e. paging_init M mem_end st = Some (Inr st') \<and>
      page_table st' (pml4e_walk M (palloc_root M) (ptov M pa)) = Some e \<and>
      pte_present M e \<and> (pte_writable M e \<longleftrightarrow> \<not> in_kernel_text M (ptov M pa)) \<and>
      pte_frame M e = pa"
proof -
  let ?j = "unat pa div 2 ^ PGBITS M"
  let ?s = "pml4e_walk M (palloc_root M) (ptov M pa)"
  from ok have k: "PGBITS M < 64" by (simp add: machine_ok_def)
  have pa: "of_nat ?j * PGSIZE M = pa" and u: "unat pa = ?j * 2 ^ PGBITS M"
    using aligned_page_addr[OF al] by simp_all
  from lt u have j: "?j < page_count M mem_end"
    by (simp add: page_count_less word_less_nat_alt)
  have "map_pages M (palloc_root M) 0 (page_count M mem_end) (page_table st) ?s
      = Some (pte_of M (0 + of_nat ?j * PGSIZE M))"
  proof (rule map_pages_hit[OF j _ leaf])
    show "pml4e_walk M (palloc_root M) (ptov M (0 + of_nat ?j * PGSIZE M)) = ?s"
      by (simp add: pa)
    fix j' assume j': "j' < page_count M mem_end" "j' \<noteq> ?j"
    have "unat (of_nat j' * PGSIZE M :: 64 word) \<noteq> unat pa"
    proof
      assume "unat (of_nat j' * PGSIZE M :: 64 word) = unat pa"
      then have "j' * 2 ^ PGBITS M = ?j * 2 ^ PGBITS M"
        using u by (simp only: visited_page(3)[OF k nowrap j'(1)])
      with j'(2) show False by simp
    qed
    then have "of_nat j' * PGSIZE M \<noteq> pa" by auto
    with own visited_page(1,2)[OF k nowrap j'(1)]
    show "pml4e_walk M (palloc_root M) (ptov M (0 + of_nat j' * PGSIZE M)) \<noteq> ?s"
      by simp
  qed
  then have "map_pages M (palloc_root M) 0 (page_count M mem_end) (page_table st) ?s
      = Some (pte_of M pa)"
    by (simp add: pa)
  with pte_of_present[OF ok al] pte_of_writable[OF ok al] pte_of_frame[OF ok al]
  show ?thesis
    by (simp add: paging_init_result[OF k nowrap root] emit_def)
qed

text \<open>
  C1, an instance: the second of three pages is kernel text; its entry is present, holds
  \<open>0x1000\<close> and is not writable.
\<close>

theorem paging_init_entry_witness:
  "machine_ok example_machine \<and> unat (0x3000 :: 64 word) + 2 ^ PGBITS example_machine \<le> 2 ^ 64 \<and>
   palloc_root example_machine \<noteq> 0 \<and> page_aligned example_machine 0x1000 \<and>
   (0x1000 :: 64 word) < 0x3000 \<and>
   in_kernel_text example_machine (ptov example_machine 0x1000) \<and>
   (\<exists>st' e. paging_init example_machine 0x3000 boot_state = Some (Inr st') \<and>
      page_table st' 0x10008101000 = Some e \<and>
      pte_present example_machine e \<and> \<not> pte_writable example_machine e \<and>
      pte_frame example_machine e = 0x1000)"
proof -
  have h1: "machine_ok example_machine"
    by (simp add: machine_ok_def example_machine_def)
  have h2: "unat (0x3000 :: 64 word) + 2 ^ PGBITS example_machine \<le> 2 ^ 64"
    by (simp add: example_machine_def)
  have h3: "palloc_root example_machine \<noteq> 0"
    by (simp add: example_machine_def)
  have h4: "page_aligned example_machine 0x1000"
    by (simp add: page_aligned_def example_machine_def)
  have h5: "(0x1000 :: 64 word) < 0x3000" by simp
  have h6: "pml4e_walk example_machine (palloc_root example_machine) (ptov example_machine 0x1000) \<noteq> 0"
    by (simp add: example_machine_def ptov_def)
  have h7: "\<forall>pa'. page_aligned example_machine pa' \<and> pa' < 0x3000 \<and> pa' \<noteq> 0x1000 \<longrightarrow>
        pml4e_walk example_machine (palloc_root example_machine) (ptov example_machine pa')
      \<noteq> pml4e_walk example_machine (palloc_root example_machine) (ptov example_machine 0x1000)"
    by (simp add: example_machine_def ptov_def)
  have h8: "in_kernel_text example_machine (ptov example_machine 0x1000)"
    by (simp add: example_machine_def ptov_def in_kernel_text_def)
  have h9: "pml4e_walk example_machine (palloc_root example_machine) (ptov example_machine 0x1000)
     = 0x10008101000"
    by (simp add: example_machine_def ptov_def)
  show ?thesis
    using paging_init_entry[OF h1 h2 h3 h4 h5 h6 h7, of boot_state] h1 h2 h3 h4 h5 h8
    unfolding h9 by auto
qed

text \<open>
  C1 as stated fails: when the walk yields no leaf entry, \<^verbatim>\<open>paging_init\<close> returns with no
  entry written for page 0, which lies below \<open>mem_end\<close>.
\<close>

theorem paging_init_no_entry_counterexample:
  "page_aligned no_leaf_machine 0 \<and> (0 :: 64 word) < 0x1000 \<and>
   paging_init no_leaf_machine 0x1000 boot_state =
     Some (Inr (boot_state\<lparr>base_pml4 := 0x8004100000, active_pml4 := 0x8004100000,
       calls := [Palloc_get_page, Pml4_activate]\<rparr>)) \<and>
   page_table boot_state = Map.empty"
  by (simp add: paging_init_def paging_loop.simps map_page_def no_leaf_machine_def example_machine_def
      boot_state_def page_aligned_def PGSIZE_def ptov_def emit_def Let_def)

text \<open>
  C2 as stated fails: the walk for page 0 yields \<^verbatim>\<open>NULL\<close>, and \<^verbatim>\<open>paging_init\<close> does not halt;
  it goes on to map page 1 and activates the table.
\<close>

theorem paging_init_continues_counterexample:
  "pml4e_walk one_hole_machine (palloc_root one_hole_machine) (ptov one_hole_machine 0) = 0 \<and>
   paging_init one_hole_machine 0x2000 boot_state =
     Some (Inr (boot_state\<lparr>base_pml4 := 0x8004100000, active_pml4 := 0x8004100000,
       page_table := [0x10008101000 \<mapsto> 0x1001],
       calls := [Palloc_get_page, Pml4_activate]\<rparr>))"
  by (simp add: paging_init_def paging_loop.simps map_page_def one_hole_machine_def example_machine_def
      boot_state_def page_perm_def PGSIZE_def ptov_def emit_def Let_def)

text \<open>
  What the loop leaves at the leaf entry of a page: shared by the proofs that follow.
\<close>

lemma map_pages_leaf:
  assumes k: "PGBITS M < 64" and nowrap: "unat mem_end + 2 ^ PGBITS M \<le> 2 ^ 64"
    and al: "page_aligned M pa" and lt: "pa < mem_end"
    and leaf: "pml4e_walk M pml4 (ptov M pa) \<noteq> 0"
    and own: "\<forall>pa'. page_aligned M pa' \<and> pa' < mem_end \<and> pa' \<noteq> pa \<longrightarrow>
        pml4e_walk M pml4 (ptov M pa') \<noteq> pml4e_walk M pml4 (ptov M pa)"
  shows "map_pages M pml4 0 (page_count M mem_end) tbl (pml4e_walk M pml4 (ptov M pa))
      = Some (pte_of M pa)"
proof -
  let ?j = "unat pa div 2 ^ PGBITS M"
  let ?s = "pml4e_walk M pml4 (ptov M pa)"
  have pa: "of_nat ?j * PGSIZE M = pa" and u: "unat pa = ?j * 2 ^ PGBITS M"
    using aligned_page_addr[OF al] by simp_all
  from lt u have j: "?j < page_count M mem_end"
    by (simp add: page_count_less word_less_nat_alt)
  have "map_pages M pml4 0 (page_count M mem_end) tbl ?s
      = Some (pte_of M (0 + of_nat ?j * PGSIZE M))"
  proof (rule map_pages_hit[OF j _ leaf])
    show "pml4e_walk M pml4 (ptov M (0 + of_nat ?j * PGSIZE M)) = ?s"
      by (simp add: pa)
    fix j' assume j': "j' < page_count M mem_end" "j' \<noteq> ?j"
    have "unat (of_nat j' * PGSIZE M :: 64 word) \<noteq> unat pa"
    proof
      assume "unat (of_nat j' * PGSIZE M :: 64 word) = unat pa"
      then have "j' * 2 ^ PGBITS M = ?j * 2 ^ PGBITS M"
        using u by (simp only: visited_page(3)[OF k nowrap j'(1)])
      with j'(2) show False by simp
    qed
    then have "of_nat j' * PGSIZE M \<noteq> pa" by auto
    with own visited_page(1,2)[OF k nowrap j'(1)]
    show "pml4e_walk M pml4 (ptov M (0 + of_nat j' * PGSIZE M)) \<noteq> ?s"
      by simp
  qed
  then show ?thesis by (simp add: pa)
qed

text \<open>
  C2 (as amended). When \<open>mem_end\<close> is at most \<open>2 ^ 64 - PGSIZE\<close>, \<^verbatim>\<open>paging_init\<close> ends. It
  halts, on the failed allocation, exactly when the root frame is not available. With a
  root frame it returns normally whatever the walks yield: it has requested the root and,
  last, activated the table; every page-aligned address below \<open>mem_end\<close> whose walk yields a
  leaf entry of its own has its entry \<open>pa | perm\<close> written there, also when the walk of an
  earlier page failed; and nothing else is written, so a page whose walk yields \<^verbatim>\<open>NULL\<close> is
  skipped and the loop goes on with the next page.
\<close>

theorem paging_init_skips_failed_walk:
  assumes k: "PGBITS M < 64" and nowrap: "unat mem_end + 2 ^ PGBITS M \<le> 2 ^ 64"
  shows "\<exists>r. paging_init M mem_end st = Some r \<and>
    (palloc_root M = 0 \<longrightarrow> r = Inl (Palloc_assert, emit Palloc_get_page st)) \<and>
    (palloc_root M \<noteq> 0 \<longrightarrow>
       \<not> isl r \<and>
       calls (result_state r) = calls st @ [Palloc_get_page, Pml4_activate] \<and>
       base_pml4 (result_state r) = palloc_root M \<and>
       active_pml4 (result_state r) = palloc_root M \<and>
       (\<forall>pa. page_aligned M pa \<and> pa < mem_end \<and>
             pml4e_walk M (palloc_root M) (ptov M pa) \<noteq> 0 \<and>
             (\<forall>pa'. page_aligned M pa' \<and> pa' < mem_end \<and> pa' \<noteq> pa \<longrightarrow>
                pml4e_walk M (palloc_root M) (ptov M pa')
                  \<noteq> pml4e_walk M (palloc_root M) (ptov M pa)) \<longrightarrow>
           page_table (result_state r) (pml4e_walk M (palloc_root M) (ptov M pa))
             = Some (pte_of M pa))) \<and>
    (\<forall>s. page_table (result_state r) s \<noteq> page_table st s \<longrightarrow>
       s \<noteq> 0 \<and> (\<exists>pa. page_aligned M pa \<and> pa < mem_end \<and>
          pml4e_walk M (palloc_root M) (ptov M pa) = s))"
proof (cases "palloc_root M = 0")
  case True
  then show ?thesis by (simp add: paging_init_def Let_def result_state_def emit_def)
next
  case False
  let ?tbl = "map_pages M (palloc_root M) 0 (page_count M mem_end) (page_table st)"
  let ?st' = "emit Pml4_activate ((emit Palloc_get_page st)
     \<lparr>base_pml4 := palloc_root M, page_table := ?tbl, active_pml4 := palloc_root M\<rparr>)"
  have run: "paging_init M mem_end st = Some (Inr ?st')"
    by (rule paging_init_result[OF k nowrap False])
  have tbl: "page_table ?st' = ?tbl" and cs: "calls ?st' = calls st @ [Palloc_get_page, Pml4_activate]"
    and roots: "base_pml4 ?st' = palloc_root M" "active_pml4 ?st' = palloc_root M"
    by (simp_all add: emit_def)
  have written: "?tbl (pml4e_walk M (palloc_root M) (ptov M pa)) = Some (pte_of M pa)"
    if "page_aligned M pa" "pa < mem_end" "pml4e_walk M (palloc_root M) (ptov M pa) \<noteq> 0"
      "\<forall>pa'. page_aligned M pa' \<and> pa' < mem_end \<and> pa' \<noteq> pa \<longrightarrow>
         pml4e_walk M (palloc_root M) (ptov M pa') \<noteq> pml4e_walk M (palloc_root M) (ptov M pa)"
    for pa
    using that by (intro map_pages_leaf[OF k nowrap]) 
  have frame: "s \<noteq> 0 \<and> (\<exists>pa. page_aligned M pa \<and> pa < mem_end \<and>
          pml4e_walk M (palloc_root M) (ptov M pa) = s)" if ch: "?tbl s \<noteq> page_table st s" for s
  proof
    from ch show "s \<noteq> 0" by (auto simp add: map_pages_null)
    from ch have "\<not> (\<forall>j < page_count M mem_end.
        pml4e_walk M (palloc_root M) (ptov M (0 + of_nat j * PGSIZE M)) \<noteq> s)"
      using map_pages_other[of "page_count M mem_end" M "palloc_root M" 0 s "page_table st"]
      by blast
    then obtain j where j: "j < page_count M mem_end"
      and w: "pml4e_walk M (palloc_root M) (ptov M (of_nat j * PGSIZE M)) = s"
      by auto
    from visited_page(1,2)[OF k nowrap j] w
    show "\<exists>pa. page_aligned M pa \<and> pa < mem_end \<and> pml4e_walk M (palloc_root M) (ptov M pa) = s"
      by blast
  qed
  have "\<not> isl (Inr ?st' :: kernel_state result)" by simp
  with False run tbl cs roots written frame show ?thesis
    unfolding result_state_def by (intro exI[of _ "Inr ?st'"]) (simp del: map_pages.simps)
qed

text \<open>
  C2, instances: with the walk failing for page 0 the run returns normally, has activated
  the table and has written the entry of page 1; with no root frame it halts.
\<close>

theorem paging_init_skips_failed_walk_witness:
  "pml4e_walk one_hole_machine (palloc_root one_hole_machine) (ptov one_hole_machine 0) = 0 \<and>
   (\<exists>r. paging_init one_hole_machine 0x2000 boot_state = Some r \<and> \<not> isl r \<and>
      calls (result_state r) = [Palloc_get_page, Pml4_activate] \<and>
      active_pml4 (result_state r) = 0x8004100000 \<and>
      page_table (result_state r) 0x10008101000 = Some 0x1001) \<and>
   paging_init no_root_machine 0x2000 boot_state
     = Some (Inl (Palloc_assert, emit Palloc_get_page boot_state))"
proof -
  let ?M = one_hole_machine
  have h1: "PGBITS ?M < 64" "PGBITS no_root_machine < 64"
    by (simp_all add: one_hole_machine_def no_root_machine_def example_machine_def)
  have h2: "unat (0x2000 :: 64 word) + 2 ^ PGBITS ?M \<le> 2 ^ 64"
    "unat (0x2000 :: 64 word) + 2 ^ PGBITS no_root_machine \<le> 2 ^ 64"
    by (simp_all add: one_hole_machine_def no_root_machine_def example_machine_def)
  have h3: "pml4e_walk ?M (palloc_root ?M) (ptov ?M 0) = 0"
    by (simp add: one_hole_machine_def example_machine_def ptov_def)
  have root: "palloc_root ?M = 0x8004100000" "palloc_root no_root_machine = 0"
    by (simp_all add: one_hole_machine_def no_root_machine_def example_machine_def)
  have al: "page_aligned ?M 0x1000" "(0x1000 :: 64 word) < 0x2000"
    by (simp_all add: page_aligned_def one_hole_machine_def example_machine_def)
  have w: "pml4e_walk ?M 0x8004100000 (ptov ?M 0x1000) = 0x10008101000"
    by (simp add: one_hole_machine_def example_machine_def ptov_def)
  have own: "\<forall>pa'. page_aligned ?M pa' \<and> pa' < 0x2000 \<and> pa' \<noteq> 0x1000 \<longrightarrow>
      pml4e_walk ?M 0x8004100000 (ptov ?M pa') \<noteq> 0x10008101000"
    by (simp add: one_hole_machine_def example_machine_def ptov_def)
  have e: "pte_of ?M 0x1000 = 0x1001"
    by (simp add: pte_of_def page_perm_def one_hole_machine_def example_machine_def ptov_def)
  from paging_init_skips_failed_walk[OF h1(1) h2(1), of boot_state]
  obtain r where r: "paging_init ?M 0x2000 boot_state = Some r"
    and ok: "\<not> isl r" "calls (result_state r) = calls boot_state @ [Palloc_get_page, Pml4_activate]"
      "active_pml4 (result_state r) = 0x8004100000"
    and wr: "\<forall>pa. page_aligned ?M pa \<and> pa < 0x2000 \<and>
             pml4e_walk ?M 0x8004100000 (ptov ?M pa) \<noteq> 0 \<and>
             (\<forall>pa'. page_aligned ?M pa' \<and> pa' < 0x2000 \<and> pa' \<noteq> pa \<longrightarrow>
                pml4e_walk ?M 0x8004100000 (ptov ?M pa')
                  \<noteq> pml4e_walk ?M 0x8004100000 (ptov ?M pa)) \<longrightarrow>
           page_table (result_state r) (pml4e_walk ?M 0x8004100000 (ptov ?M pa))
             = Some (pte_of ?M pa)"
    unfolding root by auto
  from wr[rule_format, of "0x1000"] al own
  have "page_table (result_state r) 0x10008101000 = Some 0x1001"
    unfolding w e by simp
  moreover from paging_init_skips_failed_walk[OF h1(2) h2(2), of boot_state]
  have "paging_init no_root_machine 0x2000 boot_state
     = Some (Inl (Palloc_assert, emit Palloc_get_page boot_state))"
    unfolding root by auto
  ultimately show ?thesis using h3 r ok by (auto simp add: boot_state_def)
qed


section \<open>Strings in memory\<close>

lemma takeWhile_stop:
  "\<forall>x\<in>set s. P x \<Longrightarrow> \<not> P c \<Longrightarrow> takeWhile P (s @ c # post) = s"
  by (induction s) simp_all

lemma takeWhile_all: "\<forall>x\<in>set s. P x \<Longrightarrow> takeWhile P s = s"
  by (induction s) simp_all

lemma c_str_at:
  assumes "m = pre @ s @ NUL # post" "p = length pre" "NUL \<notin> set s"
  shows "c_str m p = Some s"
proof -
  from assms(3) have "takeWhile (\<lambda>c. c \<noteq> NUL) (s @ NUL # post) = s"
    by (intro takeWhile_stop) auto
  with assms(1,2) show ?thesis by (simp add: c_str_def)
qed

lemma strnlen_at:
  assumes "m = pre @ s @ NUL # post" "p = length pre" "NUL \<notin> set s"
  shows "strnlen m p n = Some (min n (length s))"
proof (cases "n \<le> length s")
  case True
  with assms(3) have "NUL \<notin> set (take n s)" by (auto dest: in_set_takeD)
  then have tw: "takeWhile (\<lambda>c. c \<noteq> NUL) (take n s) = take n s"
    by (intro takeWhile_all) auto
  from True have tk: "take n (drop p m) = take n s" using assms(1,2) by simp
  from True have "length (take n s) = n" by simp
  then show ?thesis using True
    unfolding strnlen_def Let_def tk tw by (simp add: min_def)
next
  case False
  then have "n - length s = Suc (n - Suc (length s))" by simp
  then have "take (n - length s) (NUL # post) = NUL # take (n - Suc (length s)) post"
    by (simp only: take_Suc_Cons)
  with False have "take n (s @ NUL # post) = s @ NUL # take (n - Suc (length s)) post"
    by simp
  moreover from assms(3) have "takeWhile (\<lambda>c. c \<noteq> NUL) (s @ NUL # take (n - Suc (length s)) post) = s"
    by (intro takeWhile_stop) auto
  ultimately show ?thesis using False assms
    by (simp add: strnlen_def Let_def min_def)
qed


lemma strtok_r_name:
  assumes m: "m = pre @ n @ CHR ''='' # rest" and p: "p = length pre"
    and n: "n \<noteq> []" "CHR ''='' \<notin> set n" "NUL \<notin> set n"
  shows "strtok_r m p ''='' = Some (Some p, p + length n + 1, pre @ n @ NUL # rest)"
proof -
  from n obtain c cs where cs: "n = c # cs" "c \<noteq> CHR ''=''" "c \<noteq> NUL"
    by (cases n) auto
  have skip: "takeWhile (\<lambda>c. c = CHR ''='' \<and> c \<noteq> NUL) (drop p m) = []"
    using cs by (simp add: m p)
  have "takeWhile (\<lambda>c. c \<notin> set ''='' \<and> c \<noteq> NUL) (n @ CHR ''='' # rest) = n"
    using n by (intro takeWhile_stop) auto
  then have tok: "takeWhile (\<lambda>c. c \<noteq> CHR ''='' \<and> c \<noteq> NUL) (drop p m) = n"
    by (simp add: m p)
  have first: "m ! p = c" by (simp add: m p cs nth_append)
  have "m ! (p + length n) = CHR ''=''"
    by (simp add: m p nth_append)
  moreover have "m[p + length n := NUL] = pre @ n @ NUL # rest"
    by (simp add: m p list_update_append)
  moreover have "p + length n < length m" "p < length m" by (simp_all add: m p)
  ultimately show ?thesis
    using cs(3) by (simp add: strtok_r_def Let_def skip tok first)
qed

lemma strtok_r_name_only:
  assumes m: "m = pre @ n @ NUL # rest" and p: "p = length pre"
    and n: "n \<noteq> []" "CHR ''='' \<notin> set n" "NUL \<notin> set n"
  shows "strtok_r m p ''='' = Some (Some p, p + length n, m)"
proof -
  from n obtain c cs where cs: "n = c # cs" "c \<noteq> CHR ''=''" "c \<noteq> NUL"
    by (cases n) auto
  have skip: "takeWhile (\<lambda>c. c = CHR ''='' \<and> c \<noteq> NUL) (drop p m) = []"
    using cs by (simp add: m p)
  have "takeWhile (\<lambda>c. c \<notin> set ''='' \<and> c \<noteq> NUL) (n @ NUL # rest) = n"
    using n by (intro takeWhile_stop) auto
  then have tok: "takeWhile (\<lambda>c. c \<noteq> CHR ''='' \<and> c \<noteq> NUL) (drop p m) = n"
    by (simp add: m p)
  have first: "m ! p = c" by (simp add: m p cs nth_append)
  have "m ! (p + length n) = NUL"
    by (simp add: m p nth_append)
  moreover have "p + length n < length m" "p < length m" by (simp_all add: m p)
  ultimately show ?thesis
    using cs(3) by (simp add: strtok_r_def Let_def skip tok first)
qed

lemma takeWhile_False: "takeWhile (\<lambda>c. False) xs = []"
  by (cases xs) simp_all

lemma strtok_r_value:
  assumes m: "m = pre @ v @ NUL # rest" and p: "p = length pre" and v: "NUL \<notin> set v"
  shows "strtok_r m p [] = Some (if v = [] then None else Some p, p + length v, m)"
proof (cases v)
  case Nil
  then show ?thesis by (simp add: strtok_r_def Let_def m p nth_append takeWhile_False)
next
  case (Cons c cs)
  with v have c: "c \<noteq> NUL" by auto
  have "takeWhile (\<lambda>c. c \<noteq> NUL) (v @ NUL # rest) = v"
    using v by (intro takeWhile_stop) auto
  then have tok: "takeWhile (\<lambda>c. c \<noteq> NUL) (drop p m) = v"
    by (simp add: m p)
  have first: "m ! p = c" by (simp add: m p Cons nth_append)
  have last: "m ! (p + length v) = NUL"
    by (simp add: m p nth_append)
  have lt: "p + length v < length m" "p < length m" by (simp_all add: m p)
  have "strtok_r m p [] = Some (Some p, p + length v, m)"
    unfolding strtok_r_def Let_def using first c last lt
    by (simp add: tok takeWhile_False)
  with Cons show ?thesis by simp
qed

lemma split_only_refl: "split_only m m"
  by (simp add: split_only_def list_all2_same)

lemma split_only_trans:
  assumes "split_only a b" "split_only b c"
  shows "split_only a c"
proof -
  let ?R = "\<lambda>a b. a = b \<or> (a = CHR ''='' \<and> b = NUL)"
  have tr: "\<And>x y z. ?R x y \<Longrightarrow> ?R y z \<Longrightarrow> ?R x z" by auto
  have ab: "list_all2 ?R a b" and bc: "list_all2 ?R b c"
    using assms by (simp_all add: split_only_def)
  have "list_all2 ?R a c"
    by (rule list_all2_trans[where ?P1.0 = ?R and ?P2.0 = ?R, OF tr ab bc])
  then show ?thesis by (simp add: split_only_def)
qed

lemma split_only_length: "split_only m m' \<Longrightarrow> length m' = length m"
  by (simp add: split_only_def list_all2_lengthD)

lemma split_only_nth:
  "split_only m m' \<Longrightarrow> p < length m \<Longrightarrow> m' ! p = m ! p \<or> (m ! p = CHR ''='' \<and> m' ! p = NUL)"
  by (auto simp add: split_only_def list_all2_conv_all_nth)

lemma list_all2_update_right:
  assumes "R (m ! i) v" and "\<And>a. R a a"
  shows "list_all2 R m (m[i := v])"
proof -
  have "R (m ! j) (m[i := v] ! j)" if "j < length m" for j
    using assms that by (cases "j = i") simp_all
  then show ?thesis by (simp add: list_all2_conv_all_nth)
qed

lemma strtok_r_frame:
  assumes "strtok_r m s d = Some (tok, sv, m')"
  shows "list_all2 (\<lambda>a b. a = b \<or> (a \<in> set d \<and> b = NUL)) m m'"
proof -
  define s1 where "s1 = s + length (takeWhile (\<lambda>c. c \<in> set d \<and> c \<noteq> NUL) (drop s m))"
  define tw where "tw = takeWhile (\<lambda>c. c \<notin> set d \<and> c \<noteq> NUL) (drop s1 m)"
  define s2 where "s2 = s1 + length tw"
  show ?thesis
  proof (cases "m' = m")
    case True
    then show ?thesis by (simp add: list_all2_same)
  next
    case False
    with assms have lt: "s2 < length m" and ne: "m ! s2 \<noteq> NUL" and m': "m' = m[s2 := NUL]"
      unfolding s2_def tw_def s1_def
      by (auto simp add: strtok_r_def Let_def split: if_splits)
    from lt have "length tw < length (drop s1 m)" by (simp add: s2_def)
    then have "\<not> (\<lambda>c. c \<notin> set d \<and> c \<noteq> NUL) (drop s1 m ! length tw)"
      unfolding tw_def by (rule nth_length_takeWhile)
    moreover from lt have "drop s1 m ! length tw = m ! s2" by (simp add: s2_def)
    ultimately have "m ! s2 \<in> set d" using ne by simp
    then show ?thesis unfolding m'
      by (intro list_all2_update_right) simp_all
  qed
qed

lemma strtok_r_split_only:
  "strtok_r m s ''='' = Some (tok, sv, m') \<Longrightarrow> split_only m m'"
  by (drule strtok_r_frame) (simp add: split_only_def)

lemma strtok_r_empty_delims:
  assumes "strtok_r m s [] = Some (tok, sv, m')"
  shows "m' = m"
proof -
  from strtok_r_frame[OF assms] have "list_all2 (=) m m'" by simp
  then show ?thesis by (simp add: list_all2_eq[symmetric])
qed

lemma power_off_mem: "mem (snd (power_off B st)) = mem st"
  by (simp add: power_off_def print_stats_def printf_def emit_def Let_def)

lemma usage_mem: "mem (snd (usage B st)) = mem st"
  by (simp add: usage_def power_off_mem printf_def emit_def)

lemma apply_option_mem: "mem (result_state (apply_option B name value st)) = mem st"
  by (auto simp add: apply_option_def result_state_def usage_mem random_init_def emit_def
      split: option.splits sum.splits prod.splits)

lemma parse_options_frame:
  "split_only (mem st) (mem (result_state2 (parse_options B st argv)))"
proof (induction argv arbitrary: st)
  case Nil
  show ?case by (simp add: result_state2_def split_only_refl)
next
  case (Cons p argv)
  show ?case
  proof (cases "length (mem st) \<le> p \<or> mem st ! p \<noteq> CHR ''-''")
    case True
    then show ?thesis by (auto simp add: result_state2_def split_only_refl)
  next
    case dash: False
    show ?thesis
    proof (cases "strtok_r (mem st) p ''=''")
      case None
      with dash show ?thesis by (simp add: result_state2_def split_only_refl)
    next
      case (Some r1)
      obtain name sv m1 where r1: "r1 = (name, sv, m1)" by (cases r1) auto
      from Some r1 have s1: "split_only (mem st) m1" by (auto dest: strtok_r_split_only)
      show ?thesis
      proof (cases "strtok_r m1 sv []")
        case None
        with dash Some r1 s1 show ?thesis by (simp add: result_state2_def)
      next
        case some2: (Some r2)
        obtain v sv' m2 where r2: "r2 = (v, sv', m2)" by (cases r2) auto
        from some2 r2 have m2: "m2 = m1" by (auto dest: strtok_r_empty_delims)
        show ?thesis
        proof (cases "apply_option B name v (st\<lparr>mem := m2\<rparr>)")
          case (Inl h)
          with apply_option_mem[of B name v "st\<lparr>mem := m2\<rparr>"]
          have "mem (snd h) = m1" by (simp add: result_state_def m2)
          with dash Some r1 some2 r2 Inl s1 show ?thesis
            by (simp add: result_state2_def)
        next
          case (Inr st')
          with apply_option_mem[of B name v "st\<lparr>mem := m2\<rparr>"]
          have "mem st' = m1" by (simp add: result_state_def m2)
          with Cons.IH[of st'] s1
          have "split_only (mem st) (mem (result_state2 (parse_options B st' argv)))"
            by (auto intro: split_only_trans)
          with dash Some r1 some2 r2 Inr show ?thesis by simp
        qed
      qed
    qed
  qed
qed

lemma echo_args_mem: "mem (result_state (echo_args ps st)) = mem st"
proof (induction ps arbitrary: st)
  case Nil
  show ?case by (simp add: result_state_def)
next
  case (Cons p ps)
  show ?case
  proof (cases "c_str (mem st) p")
    case None
    then show ?thesis by (simp add: result_state_def)
  next
    case (Some s)
    with Cons.IH[of "printf (echo_token s) st"] show ?thesis
      by (simp add: printf_def emit_def)
  qed
qed

lemma read_command_line_mem: "mem (result_state2 (read_command_line M st)) = mem st"
proof (cases "scan_args (mem st) (LOADER_ARGS_LEN M) (nat (sint (LOADER_ARG_CNT M))) 0 0")
  case (Inl e)
  then show ?thesis by (simp add: read_command_line_def Let_def result_state2_def)
next
  case (Inr argv)
  let ?st = "printf ''Kernel command line:'' st"
  have e: "mem (result_state (echo_args argv ?st)) = mem st"
    by (simp add: echo_args_mem) (simp add: printf_def emit_def)
  show ?thesis
  proof (cases "echo_args argv ?st")
    case (Inl h)
    with e have "mem (snd h) = mem st" by (simp add: result_state_def)
    with Inr Inl show ?thesis
      by (simp add: read_command_line_def Let_def result_state2_def)
  next
    case echoed: (Inr st')
    with e have "mem st' = mem st" by (simp add: result_state_def)
    with Inr echoed show ?thesis
      by (simp add: read_command_line_def Let_def result_state2_def printf_def emit_def)
  qed
qed

lemma run_task_mem: "mem (result_state (run_task B st argv)) = mem st"
  by (simp add: run_task_def result_state_def printf_def emit_def Let_def
      split: list.splits option.splits)

lemma call_action_mem: "mem (result_state (call_action B f st argv)) = mem st"
  by (cases f) (simp_all add: call_action_def run_task_mem, simp_all add: result_state_def emit_def)

lemma run_actions_mem: "mem (result_state (run_actions B st argv)) = mem st"
proof (induction B st argv rule: run_actions.induct)
  case (1 B st)
  show ?case by (simp add: result_state_def)
next
  case (2 B st p argv)
  show ?case
  proof (cases "c_str (mem st) p")
    case None
    then show ?thesis by (simp add: result_state_def)
  next
    case (Some s)
    show ?thesis
    proof (cases "find (\<lambda>a. a_name a = s) (actions B)")
      case None
      with Some show ?thesis by (simp add: result_state_def)
    next
      case found: (Some a)
      show ?thesis
      proof (cases "int (length (p # argv)) < a_argc a")
        case True
        with Some found show ?thesis by (simp add: result_state_def)
      next
        case False
        show ?thesis
        proof (cases "call_action B (a_function a) st (p # argv)")
          case (Inl h)
          with call_action_mem[of B "a_function a" st "p # argv"] Some found False
          show ?thesis by (simp add: result_state_def)
        next
          case (Inr st')
          with call_action_mem[of B "a_function a" st "p # argv"]
          have "mem st' = mem st" by (simp add: result_state_def)
          with "2.IH"[OF Some found False Inr] Some found False Inr
          show ?thesis by simp
        qed
      qed
    qed
  qed
qed


section \<open>What the option loop writes\<close>

lemma takeWhile_length_eq:
  assumes "j < length xs" "\<not> P (xs ! j)" "\<And>x. x < j \<Longrightarrow> P (xs ! x)"
  shows "length (takeWhile P xs) = j"
proof -
  have "j \<le> length (takeWhile P xs)"
    using assms(1,3) by (intro length_takeWhile_less_P_nth) auto
  moreover have "\<not> j < length (takeWhile P xs)"
  proof
    assume lt: "j < length (takeWhile P xs)"
    then have "takeWhile P xs ! j = xs ! j" by (rule takeWhile_nth)
    moreover from lt have "takeWhile P xs ! j \<in> set (takeWhile P xs)" by simp
    ultimately have "P (xs ! j)" by (auto dest: set_takeWhileD)
    with assms(2) show False by simp
  qed
  ultimately show ?thesis by simp
qed

lemma takeWhile_before:
  assumes "x < length (takeWhile P xs)"
  shows "P (xs ! x)"
proof -
  from assms have "takeWhile P xs ! x = xs ! x" by (rule takeWhile_nth)
  moreover from assms have "takeWhile P xs ! x \<in> set (takeWhile P xs)" by simp
  ultimately show ?thesis by (auto dest: set_takeWhileD)
qed

lemma separator_iff:
  "separator m q = Some i \<longleftrightarrow>
     q \<le> i \<and> i < length m \<and> m ! i = CHR ''='' \<and>
     (\<forall>x. q \<le> x \<and> x < i \<longrightarrow> m ! x \<noteq> CHR ''='' \<and> m ! x \<noteq> NUL)"
  (is "?L \<longleftrightarrow> ?R")
proof
  let ?P = "\<lambda>c. c \<noteq> CHR ''='' \<and> c \<noteq> NUL"
  let ?l = "length (takeWhile ?P (drop q m))"
  assume ?L
  then have i: "i = q + ?l" "i < length m" "m ! i = CHR ''=''"
    by (auto simp add: separator_def Let_def split: if_splits)
  have "m ! x \<noteq> CHR ''='' \<and> m ! x \<noteq> NUL" if "q \<le> x" "x < i" for x
  proof -
    from that i(1) have "x - q < ?l" by simp
    then have "?P (drop q m ! (x - q))" by (rule takeWhile_before)
    moreover from that i(2) have "drop q m ! (x - q) = m ! x" by simp
    ultimately show ?thesis by simp
  qed
  with i show ?R by simp
next
  let ?P = "\<lambda>c. c \<noteq> CHR ''='' \<and> c \<noteq> NUL"
  assume r: ?R
  have "length (takeWhile ?P (drop q m)) = i - q"
  proof (rule takeWhile_length_eq)
    from r have "q \<le> i" "i < length m" by simp_all
    then show "i - q < length (drop q m)" by simp
    from r have "drop q m ! (i - q) = m ! i" by simp
    with r show "\<not> ?P (drop q m ! (i - q))" by simp
    fix x assume "x < i - q"
    with r have "drop q m ! x = m ! (q + x)" "q \<le> q + x" "q + x < i" by simp_all
    with r show "?P (drop q m ! x)" by simp
  qed
  with r show ?L by (simp add: separator_def Let_def)
qed

lemma length_split_all: "length (split_all m ps) = length m"
  by (simp add: split_all_def)

lemma nth_split_all:
  "i < length m \<Longrightarrow>
     split_all m ps ! i = (if \<exists>p\<in>set ps. separator m p = Some i then NUL else m ! i)"
proof -
  assume i: "i < length m"
  have "Some i \<in> set (map (separator m) ps) \<longleftrightarrow> (\<exists>p\<in>set ps. separator m p = Some i)"
    by (auto intro: rev_image_eqI)
  with i show ?thesis by (simp add: split_all_def)
qed

lemma split_all_Nil: "split_all m [] = m"
  by (simp add: split_all_def map_nth)

lemma split_all_one:
  "split_all m [p] = (case separator m p of None \<Rightarrow> m | Some i \<Rightarrow> m[i := NUL])"
proof (rule nth_equalityI)
  show "length (split_all m [p]) = length (case separator m p of None \<Rightarrow> m | Some i \<Rightarrow> m[i := NUL])"
    by (simp add: length_split_all split: option.splits)
  fix i assume "i < length (split_all m [p])"
  then have i: "i < length m" by (simp add: length_split_all)
  then show "split_all m [p] ! i = (case separator m p of None \<Rightarrow> m | Some i \<Rightarrow> m[i := NUL]) ! i"
    by (auto simp add: nth_split_all nth_list_update split: option.splits)
qed

lemma separator_after_split:
  assumes j: "separator m p = Some j"
  shows "separator (m[j := NUL]) q = Some i \<longleftrightarrow> separator m q = Some i \<and> i \<noteq> j"
proof -
  from j have mj: "j < length m" "m ! j = CHR ''=''" by (simp_all add: separator_iff)
  show ?thesis
  proof
    assume "separator (m[j := NUL]) q = Some i"
    then have s: "q \<le> i" "i < length m" "m[j := NUL] ! i = CHR ''=''"
      "\<And>x. q \<le> x \<Longrightarrow> x < i \<Longrightarrow> m[j := NUL] ! x \<noteq> CHR ''='' \<and> m[j := NUL] ! x \<noteq> NUL"
      by (simp_all add: separator_iff)
    from s(3) mj have ij: "i \<noteq> j" by (auto simp add: nth_list_update)
    with s(3) have mi: "m ! i = CHR ''=''" by simp
    have "m ! x \<noteq> CHR ''='' \<and> m ! x \<noteq> NUL" if "q \<le> x" "x < i" for x
    proof (cases "x = j")
      case True
      with s(4)[OF that] mj s(2) that show ?thesis by simp
    next
      case False
      with s(4)[OF that] show ?thesis by simp
    qed
    with s(1,2) mi ij show "separator m q = Some i \<and> i \<noteq> j" by (simp add: separator_iff)
  next
    assume a: "separator m q = Some i \<and> i \<noteq> j"
    then have s: "q \<le> i" "i < length m" "m ! i = CHR ''=''"
      "\<And>x. q \<le> x \<Longrightarrow> x < i \<Longrightarrow> m ! x \<noteq> CHR ''='' \<and> m ! x \<noteq> NUL"
      by (simp_all add: separator_iff)
    have "m[j := NUL] ! x \<noteq> CHR ''='' \<and> m[j := NUL] ! x \<noteq> NUL" if "q \<le> x" "x < i" for x
    proof (cases "x = j")
      case True
      with s(4)[OF that] mj show ?thesis by simp
    next
      case False
      with s(4)[OF that] show ?thesis by simp
    qed
    with s(1,2,3) a show "separator (m[j := NUL]) q = Some i" by (simp add: separator_iff)
  qed
qed

lemma split_all_Cons:
  "split_all (split_all m [p]) ps = split_all m (p # ps)"
proof (cases "separator m p")
  case None
  then have "split_all m [p] = m" by (simp add: split_all_one)
  moreover have "split_all m (p # ps) = split_all m ps"
    by (rule nth_equalityI) (auto simp add: length_split_all nth_split_all None)
  ultimately show ?thesis by simp
next
  case (Some j)
  then have mj: "j < length m" "m ! j = CHR ''=''" by (simp_all add: separator_iff)
  show ?thesis
  proof (rule nth_equalityI)
    show "length (split_all (split_all m [p]) ps) = length (split_all m (p # ps))"
      by (simp add: length_split_all)
    fix i assume "i < length (split_all (split_all m [p]) ps)"
    then have i: "i < length m" by (simp add: length_split_all)
    have "split_all (m[j := NUL]) ps ! i = split_all m (p # ps) ! i"
    proof (cases "i = j")
      case True
      with i show ?thesis
        by (simp add: nth_split_all separator_after_split[OF Some] Some)
    next
      case False
      then have "Some j \<noteq> Some i" by simp
      with False i show ?thesis
        by (simp add: nth_split_all separator_after_split[OF Some] Some)
    qed
    with Some show "split_all (split_all m [p]) ps ! i = split_all m (p # ps) ! i"
      by (simp add: split_all_one)
  qed
qed

lemma strtok_r_separator:
  assumes t: "strtok_r m p ''='' = Some (name, sv, m1)" and d: "begins_option m p"
  shows "m1 = split_all m [p]"
proof -
  let ?P = "\<lambda>c. c \<noteq> CHR ''='' \<and> c \<noteq> NUL"
  let ?s = "p + length (takeWhile ?P (drop p m))"
  from d have p: "p < length m" "m ! p = CHR ''-''" by (simp_all add: begins_option_def)
  then have hd: "drop p m = CHR ''-'' # drop (Suc p) m"
    using Cons_nth_drop_Suc[of p m] by simp
  have skip: "takeWhile (\<lambda>c. c = CHR ''='' \<and> c \<noteq> NUL) (drop p m) = []"
    by (simp add: hd)
  from t p have lt: "?s < length m"
    and m1: "m1 = (if m ! ?s \<noteq> NUL then m[?s := NUL] else m)"
    by (auto simp add: strtok_r_def Let_def skip split: if_splits)
  from lt have "length (takeWhile ?P (drop p m)) < length (drop p m)" by simp
  then have "\<not> ?P (drop p m ! length (takeWhile ?P (drop p m)))"
    by (rule nth_length_takeWhile)
  moreover from lt have "drop p m ! length (takeWhile ?P (drop p m)) = m ! ?s" by simp
  ultimately have stop: "m ! ?s = CHR ''='' \<or> m ! ?s = NUL" by auto
  have sep: "separator m p = (if m ! ?s = CHR ''='' then Some ?s else None)"
    using lt by (simp add: separator_def Let_def)
  from stop show ?thesis
    by (auto simp add: m1 sep split_all_one)
qed

lemma begins_option_split_only:
  assumes "split_only m m'"
  shows "begins_option m' = begins_option m"
proof
  fix q
  show "begins_option m' q = begins_option m q"
    using split_only_length[OF assms] split_only_nth[OF assms, of q]
    by (auto simp add: begins_option_def)
qed

lemma parse_options_split:
  "\<exists>k. mem (result_state2 (parse_options B st argv))
        = split_all (mem st) (take k (takeWhile (begins_option (mem st)) argv)) \<and>
       (\<not> isl (parse_options B st argv) \<longrightarrow> length (takeWhile (begins_option (mem st)) argv) \<le> k)"
proof (induction argv arbitrary: st)
  case Nil
  show ?case by (simp add: result_state2_def split_all_Nil)
next
  case (Cons p argv)
  let ?m = "mem st"
  show ?case
  proof (cases "begins_option ?m p")
    case False
    then have "mem (result_state2 (parse_options B st (p # argv))) = ?m"
      by (auto simp add: begins_option_def result_state2_def)
    with False show ?thesis by (simp add: split_all_Nil)
  next
    case dash: True
    then have d: "\<not> length ?m \<le> p" "?m ! p = CHR ''-''" by (simp_all add: begins_option_def)
    have none: ?thesis if "mem (result_state2 (parse_options B st (p # argv))) = ?m"
      "isl (parse_options B st (p # argv))"
      using that by (intro exI[of _ 0]) (simp add: split_all_Nil)
    have one: ?thesis if "mem (result_state2 (parse_options B st (p # argv))) = split_all ?m [p]"
      "isl (parse_options B st (p # argv))"
      using that dash by (intro exI[of _ 1]) simp
    show ?thesis
    proof (cases "strtok_r ?m p ''=''")
      case None
      with d show ?thesis by (intro none) (simp_all add: result_state2_def)
    next
      case (Some r1)
      obtain name sv m1 where r1: "r1 = (name, sv, m1)" by (cases r1) auto
      with Some have t1: "strtok_r ?m p ''='' = Some (name, sv, m1)" by simp
      have m1: "m1 = split_all ?m [p]" by (rule strtok_r_separator[OF t1 dash])
      have so: "split_only ?m m1" by (rule strtok_r_split_only[OF t1])
      show ?thesis
      proof (cases "strtok_r m1 sv []")
        case None
        with d t1 m1 show ?thesis by (intro one) (simp_all add: result_state2_def)
      next
        case some2: (Some r2)
        obtain v sv' m2 where r2: "r2 = (v, sv', m2)" by (cases r2) auto
        with some2 have t2: "strtok_r m1 sv [] = Some (v, sv', m2)" by simp
        then have m2: "m2 = m1" by (rule strtok_r_empty_delims)
        show ?thesis
        proof (cases "apply_option B name v (st\<lparr>mem := m2\<rparr>)")
          case (Inl h)
          with apply_option_mem[of B name v "st\<lparr>mem := m2\<rparr>"]
          have "mem (snd h) = m1" by (simp add: result_state_def m2)
          with d t1 t2 Inl m1 show ?thesis by (intro one) (simp_all add: result_state2_def)
        next
          case (Inr st1)
          with apply_option_mem[of B name v "st\<lparr>mem := m2\<rparr>"]
          have ms1: "mem st1 = m1" by (simp add: result_state_def m2)
          from d t1 t2 Inr have step: "parse_options B st (p # argv) = parse_options B st1 argv"
            by simp
          from Cons.IH[of st1] obtain k where
            k: "mem (result_state2 (parse_options B st1 argv))
                  = split_all m1 (take k (takeWhile (begins_option m1) argv))"
              "\<not> isl (parse_options B st1 argv) \<longrightarrow> length (takeWhile (begins_option m1) argv) \<le> k"
            unfolding ms1 by blast
          have same: "begins_option m1 = begins_option ?m"
            by (rule begins_option_split_only[OF so])
          have "mem (result_state2 (parse_options B st1 argv))
              = split_all (split_all ?m [p]) (take k (takeWhile (begins_option ?m) argv))"
            using k(1) by (simp only: same) (simp only: m1)
          then have "mem (result_state2 (parse_options B st (p # argv)))
              = split_all ?m (p # take k (takeWhile (begins_option ?m) argv))"
            by (simp only: step split_all_Cons)
          with k(2) dash show ?thesis
            unfolding step same by (intro exI[of _ "Suc k"]) simp
        qed
      qed
    qed
  qed
qed


section \<open>The extractor on three packed strings\<close>

text \<open>
  What \<^verbatim>\<open>read_command_line\<close> does on a memory that holds three strings one after the other,
  for a declared count of 3 and any window length: the only overflow test is at the start
  of a string.
\<close>

lemma read_command_line_three:
  assumes s1: "NUL \<notin> set s1" and s2: "NUL \<notin> set s2" and s3: "NUL \<notin> set s3"
    and m: "mem st = s1 @ NUL # s2 @ NUL # s3 @ NUL # rest"
    and cnt: "LOADER_ARG_CNT M = 3" and cap: "3 \<le> LOADER_ARGS_LEN M div 2"
  shows "read_command_line M st =
     (if length s1 + length s2 + 2 < LOADER_ARGS_LEN M
      then Inr ([0, length s1 + 1, length s1 + length s2 + 2],
             printf [newline] (printf (echo_token s3) (printf (echo_token s2)
               (printf (echo_token s1) (printf ''Kernel command line:'' st)))))
      else Inl (Panic ''command line arguments overflow'', st))"
proof -
  let ?L = "LOADER_ARGS_LEN M"
  have l1: "strnlen (mem st) 0 n = Some (min n (length s1))" for n
    by (rule strnlen_at[where pre="[]" and post="s2 @ NUL # s3 @ NUL # rest"]) (simp_all add: m s1)
  have l2: "strnlen (mem st) (Suc (length s1)) n = Some (min n (length s2))" for n
    by (rule strnlen_at[where pre="s1 @ [NUL]" and post="s3 @ NUL # rest"]) (simp_all add: m s2)
  have l3: "strnlen (mem st) (Suc (Suc (length s1 + length s2))) n = Some (min n (length s3))" for n
    by (rule strnlen_at[where pre="s1 @ NUL # s2 @ [NUL]" and post="rest"]) (simp_all add: m s3)
  have c1: "c_str (mem st') 0 = Some s1" if "mem st' = mem st" for st'
    by (rule c_str_at[where pre="[]" and post="s2 @ NUL # s3 @ NUL # rest"]) (simp_all add: m s1 that)
  have c2: "c_str (mem st') (Suc (length s1)) = Some s2" if "mem st' = mem st" for st'
    by (rule c_str_at[where pre="s1 @ [NUL]" and post="s3 @ NUL # rest"]) (simp_all add: m s2 that)
  have c3: "c_str (mem st') (Suc (Suc (length s1 + length s2))) = Some s3" if "mem st' = mem st" for st'
    by (rule c_str_at[where pre="s1 @ NUL # s2 @ [NUL]" and post="rest"]) (simp_all add: m s3 that)
  have three: "nat (sint (3 :: 32 word)) = 3" by simp
  have pos: "0 < ?L" using cap by auto
  show ?thesis
  proof (cases "length s1 + length s2 + 2 < ?L")
    case True
    then have a: "min (?L) (length s1) = length s1"
      and b: "min (?L - Suc (length s1)) (length s2) = length s2" by auto
    from True have scan: "scan_args (mem st) ?L 3 0 0
        = Inr [0, length s1 + 1, length s1 + length s2 + 2]"
      using cap by (simp add: numeral_3_eq_3 l1 l2 l3 a b)
    have echo: "echo_args [0, Suc (length s1), Suc (Suc (length s1 + length s2))]
          (printf ''Kernel command line:'' st)
        = Inr (printf (echo_token s3) (printf (echo_token s2)
               (printf (echo_token s1) (printf ''Kernel command line:'' st))))"
      by (simp add: c1 c2 c3 printf_def emit_def)
    from True cap show ?thesis
      by (simp add: read_command_line_def Let_def cnt three scan echo del: scan_args.simps echo_args.simps)
  next
    case False
    have scan: "scan_args (mem st) ?L 3 0 0
        = Inl (Panic ''command line arguments overflow'')"
      using False cap pos by (auto simp add: numeral_3_eq_3 l1 l2 l3 min_def)
    from False show ?thesis
      by (simp add: read_command_line_def Let_def cnt three scan del: scan_args.simps)
  qed
qed


section \<open>Claims about the boot-argument window\<close>

text \<open>
  C3. The claim is right and the code is not: a window that ends one byte before the
  terminator of the third string should halt with the overflow message. The code tests
  \<open>p >= end\<close> only where a string starts, so it takes the third string although the window
  ends inside it, and the echo then reads on past the window end, here into \<open>XY\<close>. The
  first half of the claim holds: with the terminator at the window end the call succeeds.
\<close>

theorem read_command_line_overrun:
  "read_command_line (example_machine\<lparr>LOADER_ARGS_LEN := 9, LOADER_ARG_CNT := 3\<rparr>)
      (boot_state\<lparr>mem := three_args\<rparr>)
     = Inr ([0, 3, 6], boot_state\<lparr>mem := three_args,
          calls := [Printf ''Kernel command line:'', Printf '' ab'', Printf '' cd'',
                    Printf '' ef'', Printf [newline]]\<rparr>) \<and>
   take 8 overrun_args = ''ab'' @ [NUL] @ ''cd'' @ [NUL] @ ''ef'' \<and>
   read_command_line (example_machine\<lparr>LOADER_ARGS_LEN := 8, LOADER_ARG_CNT := 3\<rparr>)
      (boot_state\<lparr>mem := overrun_args\<rparr>)
     = Inr ([0, 3, 6], boot_state\<lparr>mem := overrun_args,
          calls := [Printf ''Kernel command line:'', Printf '' ab'', Printf '' cd'',
                    Printf '' efXY'', Printf [newline]]\<rparr>)"
  by (simp add: read_command_line_def example_machine_def boot_state_def three_args_def
      overrun_args_def numeral_3_eq_3 strnlen_def c_str_def echo_token_def printf_def emit_def
      Let_def)

text \<open>
  C4 (as amended). \<^verbatim>\<open>read_command_line\<close> and \<^verbatim>\<open>run_actions\<close> leave every byte of memory as it
  was. \<^verbatim>\<open>parse_options\<close> writes: when it returns, the memory is the one it was given with
  the separator of every option token it consumed, the first \<open>=\<close> before the terminator of
  the token, turned into a terminator, and with no other byte changed; when it halts, the
  same holds for the first \<open>k\<close> of the option tokens, for some \<open>k\<close>.
\<close>

theorem boot_window_writes:
  "mem (result_state2 (read_command_line M st)) = mem st \<and>
   mem (result_state (run_actions B st argv)) = mem st \<and>
   (\<exists>k. mem (result_state2 (parse_options B st argv))
        = split_all (mem st) (take k (takeWhile (begins_option (mem st)) argv))) \<and>
   (parse_options B st argv = Inr (rest, st') \<longrightarrow>
      mem st' = split_all (mem st) (takeWhile (begins_option (mem st)) argv))"
proof -
  from parse_options_split[of B st argv] obtain k where
    k: "mem (result_state2 (parse_options B st argv))
        = split_all (mem st) (take k (takeWhile (begins_option (mem st)) argv))"
      "\<not> isl (parse_options B st argv) \<longrightarrow> length (takeWhile (begins_option (mem st)) argv) \<le> k"
    by blast
  have "mem st' = split_all (mem st) (takeWhile (begins_option (mem st)) argv)"
    if "parse_options B st argv = Inr (rest, st')"
    using k that by (simp add: result_state2_def)
  with k(1) show ?thesis
    by (auto simp add: read_command_line_mem run_actions_mem)
qed

text \<open>
  C4, instances: parsing \<open>-rs=1234\<close> turns its separator into a terminator; parsing \<open>-q=1\<close>
  before the action \<open>run a=b\<close> does the same and leaves the \<open>=\<close> of the action argument.
\<close>

theorem boot_window_writes_witness:
  "split_all seed_arg (takeWhile (begins_option seed_arg) [0]) = ''-rs'' @ [NUL] @ ''1234'' @ [NUL] \<and>
   split_all option_then_action (takeWhile (begins_option option_then_action) [0, 5, 9])
     = ''-q'' @ [NUL] @ ''1'' @ [NUL] @ ''run'' @ [NUL] @ ''a=b'' @ [NUL]"
proof -
  let ?s1 = "boot_state\<lparr>mem := ''-rs'' @ [NUL] @ ''1234'' @ [NUL], random_seed := Some 1234,
         calls := [Random_init 1234]\<rparr>"
  let ?s2 = "boot_state\<lparr>mem := ''-q'' @ [NUL] @ ''1'' @ [NUL] @ ''run'' @ [NUL] @ ''a=b'' @ [NUL],
         power_off_when_done := True\<rparr>"
  have run1: "parse_options plain_build (boot_state\<lparr>mem := seed_arg\<rparr>) [0] = Inr ([], ?s1)"
    by (simp add: seed_arg_def boot_state_def strtok_r_def apply_option_def c_str_def atoi_def
      atoi_str_def isspace_def isdigit_def random_init_def emit_def Let_def)
  have run2: "parse_options plain_build (boot_state\<lparr>mem := option_then_action\<rparr>) [0, 5, 9]
     = Inr ([5, 9], ?s2)"
    by (simp add: option_then_action_def boot_state_def strtok_r_def apply_option_def c_str_def
      Let_def)
  have a: "mem ?s1 = split_all (mem (boot_state\<lparr>mem := seed_arg\<rparr>))
      (takeWhile (begins_option (mem (boot_state\<lparr>mem := seed_arg\<rparr>))) [0])"
    by (rule boot_window_writes[where M=example_machine and argv="[0]" and rest="[]",
        THEN conjunct2, THEN conjunct2, THEN conjunct2, THEN mp, OF run1])
  have b: "mem ?s2 = split_all (mem (boot_state\<lparr>mem := option_then_action\<rparr>))
      (takeWhile (begins_option (mem (boot_state\<lparr>mem := option_then_action\<rparr>))) [0, 5, 9])"
    by (rule boot_window_writes[where M=example_machine and argv="[0, 5, 9]" and rest="[5, 9]",
        THEN conjunct2, THEN conjunct2, THEN conjunct2, THEN mp, OF run2])
  have c: "mem (boot_state\<lparr>mem := x\<rparr>) = x" for x by simp
  have d: "mem ?s1 = ''-rs'' @ [NUL] @ ''1234'' @ [NUL]"
    "mem ?s2 = ''-q'' @ [NUL] @ ''1'' @ [NUL] @ ''run'' @ [NUL] @ ''a=b'' @ [NUL]"
    by simp_all
  from a[unfolded c, symmetric] b[unfolded c, symmetric] show ?thesis
    by (simp only: d)
qed

text \<open>
  C4 as stated fails: parsing the token \<open>-rs=1234\<close> overwrites byte 3 of the window, the
  separator, with a terminator.
\<close>

theorem parse_options_writes_window_counterexample:
  "parse_options \<lparr>FILESYS = False, USERPROG = False, VM = False\<rparr>
      (boot_state\<lparr>mem := seed_arg\<rparr>) [0]
     = Inr ([], boot_state\<lparr>mem := ''-rs'' @ [NUL] @ ''1234'' @ [NUL], random_seed := Some 1234,
         calls := [Random_init 1234]\<rparr>) \<and>
   seed_arg ! 3 = CHR ''='' \<and> (''-rs'' @ [NUL] @ ''1234'' @ [NUL]) ! 3 = NUL"
  by (simp add: seed_arg_def boot_state_def strtok_r_def apply_option_def c_str_def atoi_def
      atoi_str_def isspace_def isdigit_def random_init_def emit_def Let_def)


section \<open>One pass of the option loop\<close>

lemma parse_options_token_eq:
  assumes m: "mem st = pre @ n @ CHR ''='' # v @ NUL # post" and p: "p = length pre"
    and n: "n = CHR ''-'' # n'" "CHR ''='' \<notin> set n" "NUL \<notin> set n" and v: "NUL \<notin> set v"
  shows "parse_options B st (p # argv) =
     (case apply_option B (Some p) (if v = [] then None else Some (p + length n + 1))
             (st\<lparr>mem := pre @ n @ NUL # v @ NUL # post\<rparr>) of
        Inl h \<Rightarrow> Inl h
      | Inr st' \<Rightarrow> parse_options B st' argv)"
proof -
  let ?m1 = "pre @ n @ NUL # v @ NUL # post"
  let ?sv = "p + length n + 1"
  from n(1) have ne: "n \<noteq> []" by simp
  have t1: "strtok_r (mem st) p ''='' = Some (Some p, ?sv, ?m1)"
    by (rule strtok_r_name[OF m p ne n(2,3)])
  have t2: "strtok_r ?m1 ?sv [] = Some (if v = [] then None else Some ?sv, ?sv + length v, ?m1)"
    by (rule strtok_r_value[where pre="pre @ n @ [NUL]" and rest=post]) (simp_all add: p v)
  have first: "\<not> length (mem st) \<le> p" "mem st ! p = CHR ''-''"
    by (simp_all add: m p n(1) nth_append)
  have "parse_options B st (p # argv) =
     (case strtok_r (mem st) p ''='' of
              None \<Rightarrow> Inl (Bad_address, st)
            | Some (name, save_ptr, m1) \<Rightarrow>
                (case strtok_r m1 save_ptr [] of
                   None \<Rightarrow> Inl (Bad_address, st\<lparr>mem := m1\<rparr>)
                 | Some (value, save_ptr', m2) \<Rightarrow>
                     (case apply_option B name value (st\<lparr>mem := m2\<rparr>) of
                        Inl h \<Rightarrow> Inl h
                      | Inr st' \<Rightarrow> parse_options B st' argv)))"
    using first by (simp only: parse_options.simps if_False if_True simp_thms)
  also have "\<dots> = (case apply_option B (Some p) (if v = [] then None else Some ?sv)
             (st\<lparr>mem := ?m1\<rparr>) of
        Inl h \<Rightarrow> Inl h
      | Inr st' \<Rightarrow> parse_options B st' argv)"
    by (simp only: t1 t2 option.case prod.case)
  finally show ?thesis .
qed

lemma parse_options_token_plain:
  assumes m: "mem st = pre @ n @ NUL # post" and p: "p = length pre"
    and n: "n = CHR ''-'' # n'" "CHR ''='' \<notin> set n" "NUL \<notin> set n"
  shows "parse_options B st (p # argv) =
     (case apply_option B (Some p) None st of
        Inl h \<Rightarrow> Inl h
      | Inr st' \<Rightarrow> parse_options B st' argv)"
proof -
  from n(1) have ne: "n \<noteq> []" by simp
  have t1: "strtok_r (mem st) p ''='' = Some (Some p, p + length n, mem st)"
    by (rule strtok_r_name_only[OF m p ne n(2,3)])
  have "strtok_r (mem st) (p + length n) []
      = Some (if [] = ([]::char list) then None else Some (p + length n),
          p + length n + length ([]::char list), mem st)"
    by (rule strtok_r_value[where pre="pre @ n" and rest=post]) (simp_all add: p m)
  then have t2: "strtok_r (mem st) (p + length n) [] = Some (None, p + length n, mem st)"
    by simp
  have first: "\<not> length (mem st) \<le> p" "mem st ! p = CHR ''-''"
    by (simp_all add: m p n(1) nth_append)
  have "parse_options B st (p # argv) =
     (case strtok_r (mem st) p ''='' of
              None \<Rightarrow> Inl (Bad_address, st)
            | Some (name, save_ptr, m1) \<Rightarrow>
                (case strtok_r m1 save_ptr [] of
                   None \<Rightarrow> Inl (Bad_address, st\<lparr>mem := m1\<rparr>)
                 | Some (value, save_ptr', m2) \<Rightarrow>
                     (case apply_option B name value (st\<lparr>mem := m2\<rparr>) of
                        Inl h \<Rightarrow> Inl h
                      | Inr st' \<Rightarrow> parse_options B st' argv)))"
    using first by (simp only: parse_options.simps if_False if_True simp_thms)
  also have "\<dots> = (case apply_option B (Some p) None (st\<lparr>mem := mem st\<rparr>) of
        Inl h \<Rightarrow> Inl h
      | Inr st' \<Rightarrow> parse_options B st' argv)"
    by (simp only: t1 t2 option.case prod.case)
  finally show ?thesis by simp
qed


lemma dash_preserved:
  assumes "split_only m m'"
  shows "(q < length m' \<and> m' ! q = CHR ''-'') \<longleftrightarrow> (q < length m \<and> m ! q = CHR ''-'')"
  using split_only_length[OF assms] split_only_nth[OF assms, of q] by auto

lemma parse_step_frame:
  assumes "strtok_r (mem st) p ''='' = Some (name, sv, m1)"
    and "strtok_r m1 sv [] = Some (v, sv', m2)"
    and "apply_option B name v (st\<lparr>mem := m2\<rparr>) = Inr st'"
  shows "split_only (mem st) (mem st')"
proof -
  from assms(2) have "m2 = m1" by (rule strtok_r_empty_delims)
  moreover from apply_option_mem[of B name v "st\<lparr>mem := m2\<rparr>"] assms(3)
  have "mem st' = m2" by (simp add: result_state_def)
  ultimately show ?thesis using strtok_r_split_only[OF assms(1)] by simp
qed

lemma parse_options_dropWhile:
  "parse_options B st argv = Inr (rest, st') \<Longrightarrow>
     rest = dropWhile (\<lambda>p. p < length (mem st) \<and> mem st ! p = CHR ''-'') argv"
proof (induction argv arbitrary: st)
  case Nil
  then show ?case by simp
next
  case (Cons p argv)
  show ?case
  proof (cases "length (mem st) \<le> p \<or> mem st ! p \<noteq> CHR ''-''")
    case True
    with Cons.prems show ?thesis by (auto split: if_splits)
  next
    case dash: False
    from dash Cons.prems obtain name sv m1 v sv' m2 st1
      where t1: "strtok_r (mem st) p ''='' = Some (name, sv, m1)"
        and t2: "strtok_r m1 sv [] = Some (v, sv', m2)"
        and ap: "apply_option B name v (st\<lparr>mem := m2\<rparr>) = Inr st1"
        and rec: "parse_options B st1 argv = Inr (rest, st')"
      by (auto split: option.splits sum.splits)
    have fr: "split_only (mem st) (mem st1)" by (rule parse_step_frame[OF t1 t2 ap])
    have "rest = dropWhile (\<lambda>p. p < length (mem st1) \<and> mem st1 ! p = CHR ''-'') argv"
      by (rule Cons.IH[OF rec])
    also have "\<dots> = dropWhile (\<lambda>p. p < length (mem st) \<and> mem st ! p = CHR ''-'') argv"
      by (simp only: dash_preserved[OF fr])
    finally show ?thesis using dash by simp
  qed
qed


lemma option_names_shape:
  assumes "n \<in> set (option_names B)"
  shows "\<exists>n'. n = CHR ''-'' # n'" and "CHR ''='' \<notin> set n" and "NUL \<notin> set n"
  using assms by (auto simp add: option_names_def split: if_splits)

section \<open>Claims about the option parser\<close>

text \<open>
  C6. On the vector \<open>-q\<close>, \<open>-rs=1234\<close>, \<open>run\<close>, \<open>a\<close>, in any build, \<^verbatim>\<open>parse_options\<close> sets
  \<^verbatim>\<open>power_off_when_done\<close>, seeds the generator with 1234 and returns the pointers to \<open>run\<close>
  and \<open>a\<close>. In general, whenever it returns, what it returns is the vector from its first
  token on that does not begin with \<open>-\<close>, or the terminator when there is none.
\<close>

theorem parse_options_remainder:
  "parse_options B (boot_state\<lparr>mem := quiet_seed_run\<rparr>) [0, 3, 12, 16]
     = Inr ([12, 16], boot_state\<lparr>mem := ''-q'' @ [NUL] @ ''-rs'' @ [NUL] @ ''1234'' @ [NUL]
                @ ''run'' @ [NUL] @ ''a'' @ [NUL],
              power_off_when_done := True, random_seed := Some 1234,
              calls := [Random_init 1234]\<rparr>) \<and>
   c_str (''-q'' @ [NUL] @ ''-rs'' @ [NUL] @ ''1234'' @ [NUL] @ ''run'' @ [NUL] @ ''a'' @ [NUL]) 12
     = Some ''run'' \<and>
   c_str (''-q'' @ [NUL] @ ''-rs'' @ [NUL] @ ''1234'' @ [NUL] @ ''run'' @ [NUL] @ ''a'' @ [NUL]) 16
     = Some ''a'' \<and>
   (parse_options B' st argv = Inr (rest, st') \<longrightarrow>
      rest = dropWhile (\<lambda>p. p < length (mem st) \<and> mem st ! p = CHR ''-'') argv)"
proof -
  have "parse_options B (boot_state\<lparr>mem := quiet_seed_run\<rparr>) [0, 3, 12, 16]
     = Inr ([12, 16], boot_state\<lparr>mem := ''-q'' @ [NUL] @ ''-rs'' @ [NUL] @ ''1234'' @ [NUL]
                @ ''run'' @ [NUL] @ ''a'' @ [NUL],
              power_off_when_done := True, random_seed := Some 1234,
              calls := [Random_init 1234]\<rparr>)"
    by (simp add: quiet_seed_run_def boot_state_def strtok_r_def apply_option_def c_str_def atoi_def
      atoi_str_def isspace_def isdigit_def random_init_def emit_def Let_def)
  moreover have "c_str (''-q'' @ [NUL] @ ''-rs'' @ [NUL] @ ''1234'' @ [NUL] @ ''run'' @ [NUL] @ ''a'' @ [NUL]) 12
     = Some ''run''" by (simp add: c_str_def)
  moreover have "c_str (''-q'' @ [NUL] @ ''-rs'' @ [NUL] @ ''1234'' @ [NUL] @ ''run'' @ [NUL] @ ''a'' @ [NUL]) 16
     = Some ''a''" by (simp add: c_str_def)
  ultimately show ?thesis using parse_options_dropWhile[of B' st argv rest st'] by blast
qed


text \<open>C6, an instance of the general part, on the same vector.\<close>

theorem parse_options_remainder_witness:
  "dropWhile (\<lambda>p. p < length quiet_seed_run \<and> quiet_seed_run ! p = CHR ''-'') [0, 3, 12, 16]
     = [12, 16]"
proof -
  let ?B = "\<lparr>FILESYS = False, USERPROG = False, VM = False\<rparr>"
  let ?st' = "boot_state\<lparr>mem := ''-q'' @ [NUL] @ ''-rs'' @ [NUL] @ ''1234'' @ [NUL]
                @ ''run'' @ [NUL] @ ''a'' @ [NUL],
              power_off_when_done := True, random_seed := Some 1234,
              calls := [Random_init 1234]\<rparr>"
  from parse_options_remainder[of ?B ?B "boot_state\<lparr>mem := quiet_seed_run\<rparr>" "[0, 3, 12, 16]" "[12, 16]" ?st']
  show ?thesis by simp
qed


section \<open>Option tokens in sequence\<close>

lemma apply_option_effect:
  assumes c: "c_str (mem s) np = Some n"
    and v: "case vo of None \<Rightarrow> vp = None | Some x \<Rightarrow> \<exists>q. vp = Some q \<and> c_str (mem s) q = Some x"
    and ok: "valid_token B (n, vo)"
  shows "apply_option B (Some np) vp s = Inr (option_effect (n, vo) s)"
proof (cases vo)
  case None
  with v ok show ?thesis
    by (auto simp add: valid_token_def option_names_def apply_option_def option_effect_def c
        split: if_splits)
next
  case (Some x)
  with v obtain q where q: "vp = Some q" "c_str (mem s) q = Some x" by auto
  with Some ok show ?thesis
    by (auto simp add: valid_token_def option_names_def apply_option_def option_effect_def c atoi_def
        split: if_splits)
qed

lemma option_effect_mem_update: "option_effect t (s\<lparr>mem := m\<rparr>) = (option_effect t s)\<lparr>mem := m\<rparr>"
  by (simp add: option_effect_def random_init_def emit_def split: option.splits)

lemma foldl_option_effect_mem_update:
  "foldl (\<lambda>s t. option_effect t s) (s\<lparr>mem := m\<rparr>) ts = (foldl (\<lambda>s t. option_effect t s) s ts)\<lparr>mem := m\<rparr>"
  by (induction ts arbitrary: s) (simp_all add: option_effect_mem_update)

lemma length_split_bytes: "length (split_bytes t) = length (token_bytes t)"
  by (cases t rule: token_bytes.cases) simp_all

lemma parse_options_one_token:
  assumes m: "mem st = pre @ token_bytes t @ rest" and ok: "valid_token B t"
  shows "parse_options B st (length pre # argv)
     = parse_options B (option_effect t (st\<lparr>mem := pre @ split_bytes t @ rest\<rparr>)) argv"
proof -
  obtain n vo where t: "t = (n, vo)" by (cases t) auto
  from ok t have "n \<in> set (option_names B)" by (simp add: valid_token_def)
  from option_names_shape[OF this] obtain n' where
    sh: "n = CHR ''-'' # n'" "CHR ''='' \<notin> set n" "NUL \<notin> set n" by blast
  show ?thesis
  proof (cases vo)
    case None
    with m t have m': "mem st = pre @ n @ NUL # rest" by simp
    have c: "c_str (mem st) (length pre) = Some n" by (rule c_str_at[OF m' refl sh(3)])
    have "apply_option B (Some (length pre)) None st = Inr (option_effect (n, vo) st)"
      by (rule apply_option_effect[OF c _ ok[unfolded t]]) (simp add: None)
    then have "parse_options B st (length pre # argv) = parse_options B (option_effect t st) argv"
      by (simp only: parse_options_token_plain[OF m' refl sh] sum.case t)
    moreover from m' None t have "st\<lparr>mem := pre @ split_bytes t @ rest\<rparr> = st" by simp
    ultimately show ?thesis by simp
  next
    case (Some x)
    with ok t have x: "x \<noteq> []" "NUL \<notin> set x" by (simp_all add: valid_token_def)
    from m t Some have m': "mem st = pre @ n @ CHR ''='' # x @ NUL # rest" by simp
    let ?s1 = "st\<lparr>mem := pre @ n @ NUL # x @ NUL # rest\<rparr>"
    have c: "c_str (mem ?s1) (length pre) = Some n"
      by (rule c_str_at[where pre=pre and post="x @ NUL # rest"]) (simp_all add: sh(3))
    have "c_str (pre @ n @ NUL # x @ NUL # rest) (length pre + length n + 1) = Some x"
      by (rule c_str_at[where pre="pre @ n @ [NUL]" and post=rest]) (simp_all add: x)
    then have cv: "c_str (mem ?s1) (length pre + length n + 1) = Some x" by simp
    have "apply_option B (Some (length pre)) (Some (length pre + length n + 1)) ?s1
        = Inr (option_effect (n, vo) ?s1)"
    proof (rule apply_option_effect[OF c _ ok[unfolded t]])
      from cv show "case vo of None \<Rightarrow> Some (length pre + length n + 1) = None
        | Some x \<Rightarrow> \<exists>q. Some (length pre + length n + 1) = Some q \<and> c_str (mem ?s1) q = Some x"
        by (simp add: Some)
    qed
    then have "parse_options B st (length pre # argv) = parse_options B (option_effect t ?s1) argv"
      using parse_options_token_eq[OF m' refl sh x(2), of B argv]
      by (simp only: x(1) if_False sum.case t)
    moreover from Some t have "pre @ split_bytes t @ rest = pre @ n @ NUL # x @ NUL # rest"
      by simp
    ultimately show ?thesis by simp
  qed
qed

lemma parse_options_tokens:
  assumes "mem st = pre @ concat (map token_bytes toks) @ post"
    and "list_all (valid_token B) toks"
  shows "parse_options B st (token_ptrs (length pre) toks @ argv)
     = parse_options B ((foldl (\<lambda>s t. option_effect t s) st toks)
         \<lparr>mem := pre @ concat (map split_bytes toks) @ post\<rparr>) argv"
  using assms
proof (induction toks arbitrary: pre st)
  case Nil
  then have "st\<lparr>mem := pre @ concat (map split_bytes []) @ post\<rparr> = st" by simp
  then show ?case by simp
next
  case (Cons t ts)
  let ?rest = "concat (map token_bytes ts) @ post"
  let ?s1 = "option_effect t (st\<lparr>mem := pre @ split_bytes t @ ?rest\<rparr>)"
  from Cons.prems have m: "mem st = pre @ token_bytes t @ ?rest"
    and ok: "valid_token B t" and oks: "list_all (valid_token B) ts" by simp_all
  have step: "parse_options B st (length pre # token_ptrs (length pre + length (token_bytes t)) ts @ argv)
      = parse_options B ?s1 (token_ptrs (length pre + length (token_bytes t)) ts @ argv)"
    by (rule parse_options_one_token[OF m ok])
  have ms1: "mem ?s1 = (pre @ split_bytes t) @ concat (map token_bytes ts) @ post"
    by (simp add: option_effect_mem_update)
  have len: "length (pre @ split_bytes t) = length pre + length (token_bytes t)"
    by (simp add: length_split_bytes)
  from Cons.IH[OF ms1 oks] have rec:
    "parse_options B ?s1 (token_ptrs (length pre + length (token_bytes t)) ts @ argv)
      = parse_options B ((foldl (\<lambda>s t. option_effect t s) ?s1 ts)
          \<lparr>mem := (pre @ split_bytes t) @ concat (map split_bytes ts) @ post\<rparr>) argv"
    by (simp only: len)
  have "(foldl (\<lambda>s t. option_effect t s) ?s1 ts)
          \<lparr>mem := (pre @ split_bytes t) @ concat (map split_bytes ts) @ post\<rparr>
      = (foldl (\<lambda>s t. option_effect t s) st (t # ts))
          \<lparr>mem := pre @ concat (map split_bytes (t # ts)) @ post\<rparr>"
    by (simp add: option_effect_mem_update foldl_option_effect_mem_update)
  with step rec show ?case by simp
qed

lemma foldl_option_effect_keeps:
  assumes "\<forall>t\<in>set ts. fst t \<noteq> n"
  shows "(n = ''-q'' \<longrightarrow> power_off_when_done (foldl (\<lambda>s t. option_effect t s) s ts) = power_off_when_done s) \<and>
    (n = ''-f'' \<longrightarrow> format_filesys (foldl (\<lambda>s t. option_effect t s) s ts) = format_filesys s) \<and>
    (n = ''-rs'' \<longrightarrow> random_seed (foldl (\<lambda>s t. option_effect t s) s ts) = random_seed s \<and>
       calls (foldl (\<lambda>s t. option_effect t s) s ts) = calls s) \<and>
    (n = ''-mlfqs'' \<longrightarrow> thread_mlfqs (foldl (\<lambda>s t. option_effect t s) s ts) = thread_mlfqs s) \<and>
    (n = ''-ul'' \<longrightarrow> user_page_limit (foldl (\<lambda>s t. option_effect t s) s ts) = user_page_limit s) \<and>
    (n = ''-threads-tests'' \<longrightarrow> thread_tests (foldl (\<lambda>s t. option_effect t s) s ts) = thread_tests s)"
  using assms
proof (induction ts arbitrary: s)
  case Nil
  show ?case by simp
next
  case (Cons t ts)
  from Cons.prems have t: "fst t \<noteq> n" and ts: "\<forall>t\<in>set ts. fst t \<noteq> n" by simp_all
  from t have "(n = ''-q'' \<longrightarrow> power_off_when_done (option_effect t s) = power_off_when_done s) \<and>
    (n = ''-f'' \<longrightarrow> format_filesys (option_effect t s) = format_filesys s) \<and>
    (n = ''-rs'' \<longrightarrow> random_seed (option_effect t s) = random_seed s \<and>
       calls (option_effect t s) = calls s) \<and>
    (n = ''-mlfqs'' \<longrightarrow> thread_mlfqs (option_effect t s) = thread_mlfqs s) \<and>
    (n = ''-ul'' \<longrightarrow> user_page_limit (option_effect t s) = user_page_limit s) \<and>
    (n = ''-threads-tests'' \<longrightarrow> thread_tests (option_effect t s) = thread_tests s)"
    by (auto simp add: option_effect_def random_init_def emit_def split: option.splits)
  with Cons.IH[OF ts, of "option_effect t s"] show ?case by simp
qed

lemma option_effect_sets:
  assumes "valid_token B (n, v)"
  shows "(n = ''-q'' \<longrightarrow> power_off_when_done (option_effect (n, v) s)) \<and>
    (n = ''-f'' \<longrightarrow> format_filesys (option_effect (n, v) s)) \<and>
    (n = ''-rs'' \<longrightarrow> (\<exists>x. v = Some x \<and> random_seed (option_effect (n, v) s) = Some (atoi_str x) \<and>
       last (calls (option_effect (n, v) s)) = Random_init (atoi_str x))) \<and>
    (n = ''-mlfqs'' \<longrightarrow> thread_mlfqs (option_effect (n, v) s)) \<and>
    (n = ''-ul'' \<longrightarrow> (\<exists>x. v = Some x \<and> user_page_limit (option_effect (n, v) s) = scast (atoi_str x))) \<and>
    (n = ''-threads-tests'' \<longrightarrow> thread_tests (option_effect (n, v) s))"
  using assms
  by (cases v) (simp_all add: option_effect_def valid_token_def random_init_def emit_def)


text \<open>
  C9. Options are applied in the order of the vector and the last one wins. For a vector
  of any number of well-formed option tokens, packed one after the other from the end of
  \<open>pre\<close>, \<^verbatim>\<open>parse_options\<close> returns, with nothing left over, the state in which the effect of
  each token has been applied from left to right and each separator has become a
  terminator. If \<open>(n, v)\<close> is the last token with the name \<open>n\<close>, then whatever came before it,
  with the same name or another, the configuration ends at what this token sets: the flag
  of \<open>-q\<close>, \<open>-f\<close>, \<open>-mlfqs\<close> or \<open>-threads-tests\<close> is set, the seed of \<open>-rs\<close> is the number in
  \<open>v\<close> and the last call of \<^verbatim>\<open>random_init\<close> was with that number, and the page limit of
  \<open>-ul\<close> is the number in \<open>v\<close>.
\<close>

theorem parse_options_last_wins:
  assumes m: "mem st = pre @ concat (map token_bytes (ts1 @ (n, v) # ts2)) @ post"
    and ok: "list_all (valid_token B) (ts1 @ (n, v) # ts2)"
    and later: "\<forall>t\<in>set ts2. fst t \<noteq> n"
  shows "\<exists>S. (\<forall>argv. parse_options B st (token_ptrs (length pre) (ts1 @ (n, v) # ts2) @ argv)
                   = parse_options B S argv) \<and>
     parse_options B st (token_ptrs (length pre) (ts1 @ (n, v) # ts2)) = Inr ([], S) \<and>
     S = (foldl (\<lambda>s t. option_effect t s) st (ts1 @ (n, v) # ts2))
           \<lparr>mem := pre @ concat (map split_bytes (ts1 @ (n, v) # ts2)) @ post\<rparr> \<and>
     (n = ''-q'' \<longrightarrow> power_off_when_done S) \<and>
     (n = ''-f'' \<longrightarrow> format_filesys S) \<and>
     (n = ''-rs'' \<longrightarrow> (\<exists>x. v = Some x \<and> random_seed S = Some (atoi_str x) \<and>
        last (calls S) = Random_init (atoi_str x))) \<and>
     (n = ''-mlfqs'' \<longrightarrow> thread_mlfqs S) \<and>
     (n = ''-ul'' \<longrightarrow> (\<exists>x. v = Some x \<and> user_page_limit S = scast (atoi_str x))) \<and>
     (n = ''-threads-tests'' \<longrightarrow> thread_tests S)"
proof -
  let ?toks = "ts1 @ (n, v) # ts2"
  let ?f = "\<lambda>s t. option_effect t s"
  let ?m = "pre @ concat (map split_bytes ?toks) @ post"
  let ?S = "(foldl ?f st ?toks)\<lparr>mem := ?m\<rparr>"
  have run: "parse_options B st (token_ptrs (length pre) ?toks @ argv) = parse_options B ?S argv"
    for argv by (rule parse_options_tokens[OF m ok])
  from run[of "[]"] have stop: "parse_options B st (token_ptrs (length pre) ?toks) = Inr ([], ?S)"
    by simp
  from ok have okn: "valid_token B (n, v)" by simp
  define s1 where "s1 = option_effect (n, v) (foldl ?f st ts1)"
  define T where "T = foldl ?f s1 ts2"
  have "foldl ?f st ?toks = T" by (simp add: T_def s1_def)
  then have S: "?S = T\<lparr>mem := ?m\<rparr>" by (simp only:)
  note keep = foldl_option_effect_keeps[OF later, of s1, folded T_def]
  note sets = option_effect_sets[OF okn, of "foldl ?f st ts1", folded s1_def]
  have q: "n = ''-q'' \<longrightarrow> power_off_when_done ?S"
    unfolding S using keep sets by simp
  have f: "n = ''-f'' \<longrightarrow> format_filesys ?S"
    unfolding S using keep sets by simp
  have ml: "n = ''-mlfqs'' \<longrightarrow> thread_mlfqs ?S"
    unfolding S using keep sets by simp
  have tt: "n = ''-threads-tests'' \<longrightarrow> thread_tests ?S"
    unfolding S using keep sets by simp
  have rs: "n = ''-rs'' \<longrightarrow> (\<exists>x. v = Some x \<and> random_seed ?S = Some (atoi_str x) \<and>
        last (calls ?S) = Random_init (atoi_str x))"
    unfolding S using keep sets by simp
  have ul: "n = ''-ul'' \<longrightarrow> (\<exists>x. v = Some x \<and> user_page_limit ?S = scast (atoi_str x))"
    unfolding S using keep sets by simp
  show ?thesis
    by (intro exI[of _ ?S] conjI allI run stop refl q f rs ml ul tt)
qed


text \<open>
  C9, on \<open>-rs=1 -q -rs=2 -mlfqs\<close>: the seed ends at 2, after a call with 1 and a call
  with 2.
\<close>

theorem parse_options_last_wins_witness:
  "parse_options plain_build (boot_state\<lparr>mem := concat (map token_bytes seed_twice)\<rparr>) [0, 6, 9, 15]
     = Inr ([], boot_state\<lparr>mem := ''-rs'' @ [NUL] @ ''1'' @ [NUL] @ ''-q'' @ [NUL] @ ''-rs'' @ [NUL]
                   @ ''2'' @ [NUL] @ ''-mlfqs'' @ [NUL],
               power_off_when_done := True, thread_mlfqs := True, random_seed := Some 2,
               calls := [Random_init 1, Random_init 2]\<rparr>)"
proof -
  let ?st = "boot_state\<lparr>mem := concat (map token_bytes seed_twice)\<rparr>"
  have m: "mem ?st = [] @ concat (map token_bytes
      ([(''-rs'', Some ''1''), (''-q'', None)] @ (''-rs'', Some ''2'') # [(''-mlfqs'', None)])) @ []"
    by (simp add: seed_twice_def)
  have ok: "list_all (valid_token plain_build)
      ([(''-rs'', Some ''1''), (''-q'', None)] @ (''-rs'', Some ''2'') # [(''-mlfqs'', None)])"
    by (simp add: valid_token_def option_names_def plain_build_def)
  have later: "\<forall>t\<in>set [(''-mlfqs'', None :: string option)]. fst t \<noteq> ''-rs''" by simp
  have ptrs: "token_ptrs (length ([] :: char list))
      ([(''-rs'', Some ''1''), (''-q'', None)] @ (''-rs'', Some ''2'') # [(''-mlfqs'', None)])
      = [0, 6, 9, 15]"
    by simp
  from parse_options_last_wins[OF m ok later] obtain S where
    S: "parse_options plain_build ?st (token_ptrs (length ([] :: char list))
          ([(''-rs'', Some ''1''), (''-q'', None)] @ (''-rs'', Some ''2'') # [(''-mlfqs'', None)]))
        = Inr ([], S)"
    and eq: "S = (foldl (\<lambda>s t. option_effect t s) ?st
          ([(''-rs'', Some ''1''), (''-q'', None)] @ (''-rs'', Some ''2'') # [(''-mlfqs'', None)]))
           \<lparr>mem := [] @ concat (map split_bytes
          ([(''-rs'', Some ''1''), (''-q'', None)] @ (''-rs'', Some ''2'') # [(''-mlfqs'', None)])) @ []\<rparr>"
    by blast
  have "S = boot_state\<lparr>mem := ''-rs'' @ [NUL] @ ''1'' @ [NUL] @ ''-q'' @ [NUL] @ ''-rs'' @ [NUL]
                   @ ''2'' @ [NUL] @ ''-mlfqs'' @ [NUL],
               power_off_when_done := True, thread_mlfqs := True, random_seed := Some 2,
               calls := [Random_init 1, Random_init 2]\<rparr>"
    unfolding eq
    by (simp add: option_effect_def random_init_def emit_def boot_state_def atoi_str_def
        isspace_def isdigit_def Let_def seed_twice_def)
  with S[unfolded ptrs] show ?thesis by (simp only:)
qed


text \<open>
  C10. An option token that is just \<open>-rs\<close> (or \<open>-ul\<close>, in a build with user programs), with
  no separator, makes \<^verbatim>\<open>parse_options\<close> hand a null pointer to \<^verbatim>\<open>atoi\<close>: the call does not
  return a vector, it stops on the null pointer with the state unchanged.
\<close>

theorem parse_options_missing_value:
  assumes m: "mem st = pre @ n @ NUL # post"
    and n: "n = ''-rs'' \<or> (USERPROG B \<and> n = ''-ul'')"
  shows "parse_options B st (length pre # argv) = Inl (Null_pointer, st)"
proof -
  from n obtain n' where n': "n = CHR ''-'' # n'" "CHR ''='' \<notin> set n" "NUL \<notin> set n"
    by auto
  have c: "c_str (mem st) (length pre) = Some n"
    by (rule c_str_at[OF m refl n'(3)])
  have "apply_option B (Some (length pre)) None st = Inl (Null_pointer, st)"
    using n by (auto simp add: apply_option_def c atoi_def)
  then show ?thesis
    by (simp only: parse_options_token_plain[OF m refl n'] sum.case)
qed


text \<open>C10, an instance: the single token \<open>-rs\<close>.\<close>

theorem parse_options_missing_value_witness:
  "parse_options \<lparr>FILESYS = False, USERPROG = False, VM = False\<rparr>
      (boot_state\<lparr>mem := bare_seed\<rparr>) [0] = Inl (Null_pointer, boot_state\<lparr>mem := bare_seed\<rparr>)"
proof -
  have m: "mem (boot_state\<lparr>mem := bare_seed\<rparr>) = [] @ ''-rs'' @ NUL # []"
    by (simp add: bare_seed_def)
  have n: "''-rs'' = ''-rs'' \<or> (USERPROG \<lparr>FILESYS = False, USERPROG = False, VM = False\<rparr> \<and> ''-rs'' = ''-ul'')"
    by simp
  from parse_options_missing_value[OF m n, of "[]"] show ?thesis by simp
qed

section \<open>Claims about the action dispatcher\<close>

text \<open>
  C7. With the self-test flag set, in any build, \<^verbatim>\<open>run_actions\<close> on \<open>run\<close>, \<open>echoTest\<close> returns
  after exactly these outside calls: the banner, one call of the test runner with
  \<open>echoTest\<close>, the closing banner. Process creation is not among them.
\<close>

theorem run_actions_self_test:
  assumes "thread_tests st"
    and "c_str (mem st) p = Some ''run''" and "c_str (mem st) q = Some ''echoTest''"
  shows "run_actions B st [p, q] =
     Inr (st\<lparr>calls := calls st @
       [Printf (''Executing '' @ [CHR 0x27] @ ''echoTest'' @ [CHR 0x27] @ '':'' @ [newline]),
        Run_test ''echoTest'',
        Printf (''Execution of '' @ [CHR 0x27] @ ''echoTest'' @ [CHR 0x27] @ '' complete.'' @ [newline])]\<rparr>)"
  using assms
  by (simp add: actions_def call_action_def run_task_def printf_def emit_def Let_def)


text \<open>C7, an instance, in a build with user programs.\<close>

theorem run_actions_self_test_witness:
  "run_actions \<lparr>FILESYS = True, USERPROG = True, VM = False\<rparr>
      (boot_state\<lparr>mem := run_echo_test, thread_tests := True\<rparr>) [0, 4] =
     Inr (boot_state\<lparr>mem := run_echo_test, thread_tests := True, calls :=
       [Printf (''Executing '' @ [CHR 0x27] @ ''echoTest'' @ [CHR 0x27] @ '':'' @ [newline]),
        Run_test ''echoTest'',
        Printf (''Execution of '' @ [CHR 0x27] @ ''echoTest'' @ [CHR 0x27] @ '' complete.'' @ [newline])]\<rparr>)"
proof -
  let ?st = "boot_state\<lparr>mem := run_echo_test, thread_tests := True\<rparr>"
  have h1: "thread_tests ?st" by simp
  have h2: "c_str (mem ?st) 0 = Some ''run''" by (simp add: c_str_def run_echo_test_def)
  have h3: "c_str (mem ?st) 4 = Some ''echoTest''" by (simp add: c_str_def run_echo_test_def)
  from run_actions_self_test[OF h1 h2 h3, of "\<lparr>FILESYS = True, USERPROG = True, VM = False\<rparr>"]
  show ?thesis by (simp add: boot_state_def)
qed


text \<open>
  C8. With file-system support compiled in, \<^verbatim>\<open>run_actions\<close> on the single token \<open>cat\<close> halts
  with the message \<open>action `cat' requires 1 argument(s)\<close>.
\<close>

theorem run_actions_cat_needs_argument:
  assumes "FILESYS B" and "c_str (mem st) p = Some ''cat''"
  shows "run_actions B st [p] =
     Inl (Panic (''action `cat'' @ [CHR 0x27] @ '' requires 1 argument(s)''), st)"
  using assms by (simp add: actions_def show_int_def)


text \<open>C8, an instance.\<close>

theorem run_actions_cat_needs_argument_witness:
  "run_actions \<lparr>FILESYS = True, USERPROG = False, VM = False\<rparr> (boot_state\<lparr>mem := cat_only\<rparr>) [0] =
     Inl (Panic (''action `cat'' @ [CHR 0x27] @ '' requires 1 argument(s)''),
          boot_state\<lparr>mem := cat_only\<rparr>)"
proof -
  have h1: "FILESYS \<lparr>FILESYS = True, USERPROG = False, VM = False\<rparr>" by simp
  have h2: "c_str (mem (boot_state\<lparr>mem := cat_only\<rparr>)) 0 = Some ''cat''"
    by (simp add: c_str_def cat_only_def)
  from run_actions_cat_needs_argument[OF h1 h2] show ?thesis .
qed

section \<open>The trace of outside calls\<close>

lemma echo_args_calls:
  "\<exists>ps. calls (result_state (echo_args argv st)) = calls st @ ps \<and> list_all is_printf ps"
proof (induction argv arbitrary: st)
  case Nil
  show ?case by (simp add: result_state_def)
next
  case (Cons p argv)
  show ?case
  proof (cases "c_str (mem st) p")
    case None
    then show ?thesis by (simp add: result_state_def)
  next
    case (Some s)
    from Cons.IH[of "printf (echo_token s) st"] obtain ps where
      "calls (result_state (echo_args argv (printf (echo_token s) st)))
         = calls (printf (echo_token s) st) @ ps" "list_all is_printf ps" by blast
    then have "calls (result_state (echo_args (p # argv) st)) = calls st @ (Printf (echo_token s) # ps)
        \<and> list_all is_printf (Printf (echo_token s) # ps)"
      using Some by (simp add: printf_def emit_def is_printf_def)
    then show ?thesis by blast
  qed
qed

lemma read_command_line_calls:
  "\<exists>ps. calls (result_state2 (read_command_line M st)) = calls st @ ps \<and> list_all is_printf ps"
proof (cases "scan_args (mem st) (LOADER_ARGS_LEN M) (nat (sint (LOADER_ARG_CNT M))) 0 0")
  case (Inl e)
  then show ?thesis by (simp add: read_command_line_def Let_def result_state2_def)
next
  case (Inr argv)
  let ?st = "printf ''Kernel command line:'' st"
  from echo_args_calls[of argv ?st] obtain ps where
    ps: "calls (result_state (echo_args argv ?st)) = calls ?st @ ps" "list_all is_printf ps"
    by blast
  show ?thesis
  proof (cases "sint (LOADER_ARG_CNT M) < 0 \<or> int (LOADER_ARGS_LEN M div 2) < sint (LOADER_ARG_CNT M)")
    case True
    with Inr show ?thesis by (simp add: read_command_line_def Let_def result_state2_def)
  next
    case False
    show ?thesis
    proof (cases "echo_args argv ?st")
      case (Inl h)
      with ps have "calls (snd h) = calls st @ (Printf ''Kernel command line:'' # ps)
          \<and> list_all is_printf (Printf ''Kernel command line:'' # ps)"
        by (simp add: result_state_def printf_def emit_def is_printf_def)
      with Inr Inl False show ?thesis
        by (auto simp add: read_command_line_def Let_def result_state2_def)
    next
      case echoed: (Inr st')
      with ps have "calls (printf [newline] st')
          = calls st @ (Printf ''Kernel command line:'' # ps @ [Printf [newline]])
          \<and> list_all is_printf (Printf ''Kernel command line:'' # ps @ [Printf [newline]])"
        by (simp add: result_state_def printf_def emit_def is_printf_def)
      with Inr echoed False show ?thesis
        by (auto simp add: read_command_line_def Let_def result_state2_def)
    qed
  qed
qed

lemma read_command_line_echo:
  assumes "read_command_line M st = Inr (argv, st')"
  shows "\<exists>ps. calls st' = calls st @ Printf ''Kernel command line:'' # ps @ [Printf [newline]]
    \<and> list_all is_printf ps"
proof -
  let ?st = "printf ''Kernel command line:'' st"
  from assms obtain st1 where e: "echo_args argv ?st = Inr st1" and st': "st' = printf [newline] st1"
    by (auto simp add: read_command_line_def Let_def split: sum.splits if_splits)
  from echo_args_calls[of argv ?st] e obtain ps where
    "calls st1 = calls ?st @ ps" "list_all is_printf ps"
    by (auto simp add: result_state_def)
  with st' have "calls st' = calls st @ Printf ''Kernel command line:'' # ps @ [Printf [newline]]
      \<and> list_all is_printf ps"
    by (simp add: printf_def emit_def)
  then show ?thesis by blast
qed

lemma power_off_calls:
  "\<exists>ps. calls (snd (power_off B st)) = calls st @ ps \<and> Pml4_activate \<notin> set ps"
  by (simp add: power_off_def print_stats_def printf_def emit_def Let_def)

lemma usage_calls:
  "\<exists>ps. calls (snd (usage B st)) = calls st @ ps \<and> Pml4_activate \<notin> set ps"
proof -
  from power_off_calls[of B "printf (usage_text B) st"] obtain ps where
    "calls (snd (usage B st)) = calls (printf (usage_text B) st) @ ps" "Pml4_activate \<notin> set ps"
    unfolding usage_def by blast
  then have "calls (snd (usage B st)) = calls st @ (Printf (usage_text B) # ps)
      \<and> Pml4_activate \<notin> set (Printf (usage_text B) # ps)"
    by (simp add: printf_def emit_def)
  then show ?thesis by blast
qed

lemma apply_option_calls_Inr:
  "apply_option B name v st = Inr st' \<Longrightarrow>
     \<exists>seeds. calls st' = calls st @ seeds \<and> list_all is_random_init seeds"
  by (auto simp add: apply_option_def random_init_def emit_def is_random_init_def
      split: option.splits if_splits sum.splits)

lemma random_init_only_no_activate: "list_all is_random_init ps \<Longrightarrow> Pml4_activate \<notin> set ps"
  by (auto simp add: list_all_iff is_random_init_def)

lemma apply_option_calls_Inl:
  assumes "apply_option B name v st = Inl h"
  shows "\<exists>ps. calls (snd h) = calls st @ ps \<and> Pml4_activate \<notin> set ps"
proof (cases "h = usage B st")
  case True
  with usage_calls[of B st] show ?thesis by simp
next
  case False
  with assms have "snd h = st"
    by (auto simp add: apply_option_def split: option.splits if_splits sum.splits)
  then show ?thesis by simp
qed

lemma parse_options_calls_Inr:
  "parse_options B st argv = Inr (rest, st') \<Longrightarrow>
     \<exists>seeds. calls st' = calls st @ seeds \<and> list_all is_random_init seeds"
proof (induction argv arbitrary: st)
  case Nil
  then show ?case by simp
next
  case (Cons p argv)
  show ?case
  proof (cases "length (mem st) \<le> p \<or> mem st ! p \<noteq> CHR ''-''")
    case True
    with Cons.prems show ?thesis by (auto split: if_splits)
  next
    case dash: False
    from dash Cons.prems obtain name sv m1 v sv' m2 st1
      where ap: "apply_option B name v (st\<lparr>mem := m2\<rparr>) = Inr st1"
        and rec: "parse_options B st1 argv = Inr (rest, st')"
      by (auto split: option.splits sum.splits)
    from apply_option_calls_Inr[OF ap] obtain s1 where
      s1: "calls st1 = calls st @ s1" "list_all is_random_init s1" by auto
    from Cons.IH[OF rec] obtain s2 where
      s2: "calls st' = calls st1 @ s2" "list_all is_random_init s2" by auto
    from s1 s2 have "calls st' = calls st @ (s1 @ s2) \<and> list_all is_random_init (s1 @ s2)"
      by simp
    then show ?thesis by blast
  qed
qed

lemma parse_options_calls_Inl:
  "parse_options B st argv = Inl h \<Longrightarrow>
     \<exists>ps. calls (snd h) = calls st @ ps \<and> Pml4_activate \<notin> set ps"
proof (induction argv arbitrary: st)
  case Nil
  then show ?case by simp
next
  case (Cons p argv)
  show ?case
  proof (cases "length (mem st) \<le> p")
    case True
    with Cons.prems show ?thesis by auto
  next
    case inside: False
    show ?thesis
    proof (cases "mem st ! p \<noteq> CHR ''-''")
      case True
      with inside Cons.prems show ?thesis by simp
    next
      case False
      then have dash: "mem st ! p = CHR ''-''" by simp
      show ?thesis
      proof (cases "strtok_r (mem st) p ''=''")
        case None
        with inside dash Cons.prems show ?thesis by auto
      next
        case (Some r1)
        obtain name sv m1 where r1: "r1 = (name, sv, m1)" by (cases r1) auto
        show ?thesis
        proof (cases "strtok_r m1 sv []")
          case None
          with inside dash Some r1 Cons.prems show ?thesis by auto
        next
          case some2: (Some r2)
          obtain v sv' m2 where r2: "r2 = (v, sv', m2)" by (cases r2) auto
          show ?thesis
          proof (cases "apply_option B name v (st\<lparr>mem := m2\<rparr>)")
            case (Inl h')
            with inside dash Some r1 some2 r2 Cons.prems have "h = h'" by simp
            with apply_option_calls_Inl[OF Inl] show ?thesis by simp
          next
            case (Inr st1)
            with inside dash Some r1 some2 r2 Cons.prems
            have "parse_options B st1 argv = Inl h" by simp
            from Cons.IH[OF this] obtain ps where
              ps: "calls (snd h) = calls st1 @ ps" "Pml4_activate \<notin> set ps" by auto
            from apply_option_calls_Inr[OF Inr] obtain s1 where
              s1: "calls st1 = calls st @ s1" "list_all is_random_init s1" by auto
            from ps s1 random_init_only_no_activate[OF s1(2)]
            have "calls (snd h) = calls st @ (s1 @ ps) \<and> Pml4_activate \<notin> set (s1 @ ps)"
              by simp
            then show ?thesis by blast
          qed
        qed
      qed
    qed
  qed
qed

lemma paging_init_calls:
  "paging_init M e st = Some (Inr st') \<Longrightarrow> calls st' = calls st @ [Palloc_get_page, Pml4_activate]"
  "paging_init M e st = Some (Inl h) \<Longrightarrow> calls (snd h) = calls st @ [Palloc_get_page]"
  by (auto simp add: paging_init_def Let_def emit_def split: if_splits option.splits)

lemma start_devices_calls:
  "calls (start_devices B st) = calls st @
     (if USERPROG B then [Tss_init, Gdt_init] else []) @
     [Intr_init, Timer_init, Kbd_init, Input_init] @
     (if USERPROG B then [Exception_init, Syscall_init] else []) @
     [Thread_start, Serial_init_queue, Timer_calibrate] @
     (if FILESYS B then [Disk_init, Filesys_init (format_filesys st)] else []) @
     (if VM B then [Vm_init] else []) @
     [Printf (''Boot complete.'' @ [newline])]"
  by (simp add: start_devices_def printf_def emit_def Let_def)

lemma run_task_calls: "\<exists>ps. calls (result_state (run_task B st argv)) = calls st @ ps"
  by (simp add: run_task_def result_state_def printf_def emit_def Let_def
      split: list.splits option.splits)

lemma call_action_calls: "\<exists>ps. calls (result_state (call_action B f st argv)) = calls st @ ps"
  by (cases f) (simp_all add: call_action_def run_task_calls, simp_all add: result_state_def emit_def)

lemma run_actions_calls: "\<exists>ps. calls (result_state (run_actions B st argv)) = calls st @ ps"
proof (induction B st argv rule: run_actions.induct)
  case (1 B st)
  show ?case by (simp add: result_state_def)
next
  case (2 B st p argv)
  show ?case
  proof (cases "c_str (mem st) p")
    case None
    then show ?thesis by (simp add: result_state_def)
  next
    case (Some s)
    show ?thesis
    proof (cases "find (\<lambda>a. a_name a = s) (actions B)")
      case None
      with Some show ?thesis by (simp add: result_state_def)
    next
      case found: (Some a)
      show ?thesis
      proof (cases "int (length (p # argv)) < a_argc a")
        case True
        with Some found show ?thesis by (simp add: result_state_def)
      next
        case False
        from call_action_calls[of B "a_function a" st "p # argv"] obtain ps where
          ps: "calls (result_state (call_action B (a_function a) st (p # argv))) = calls st @ ps"
          by blast
        show ?thesis
        proof (cases "call_action B (a_function a) st (p # argv)")
          case (Inl h)
          with ps Some found False show ?thesis by (simp add: result_state_def)
        next
          case (Inr st')
          from "2.IH"[OF Some found False Inr] obtain qs where
            "calls (result_state (run_actions B st' (drop (nat (a_argc a)) (p # argv)))) = calls st' @ qs"
            by blast
          with ps Inr Some found False show ?thesis by (simp add: result_state_def)
        qed
      qed
    qed
  qed
qed

lemma printf_only_no_activate: "list_all is_printf ps \<Longrightarrow> Pml4_activate \<notin> set ps"
  by (auto simp add: list_all_iff is_printf_def)


section \<open>Claims about the boot sequence\<close>

text \<open>
  C5 (as amended). In every run of \<^verbatim>\<open>main\<close> in which \<^verbatim>\<open>paging_init\<close> completes,
  \<^verbatim>\<open>paging_init\<close> works on the state that \<^verbatim>\<open>parse_options\<close> returned, which worked on the
  state and the vector that \<^verbatim>\<open>read_command_line\<close> returned, which worked on the state that
  \<^verbatim>\<open>bss_init\<close> left. The outside calls before \<^verbatim>\<open>paging_init\<close> are, in this order: the
  \<^verbatim>\<open>memset\<close> of \<^verbatim>\<open>bss_init\<close>; the console output of \<^verbatim>\<open>read_command_line\<close>, from its heading
  to its newline; the calls of \<^verbatim>\<open>random_init\<close> that \<^verbatim>\<open>parse_options\<close> makes; and
  \<^verbatim>\<open>thread_init\<close>, \<^verbatim>\<open>console_init\<close>, \<^verbatim>\<open>palloc_init\<close> and \<^verbatim>\<open>malloc_init\<close>. Then \<^verbatim>\<open>paging_init\<close>
  asks for the root page, the first allocation, and activates the table. Every other
  start-up call of the build comes after that, in the order of the source, and whatever
  else the run calls comes after those.
\<close>

theorem main_paging_order:
  assumes run: "main B M st0 = Some (h, st)" and fresh: "calls st0 = []"
    and act: "Pml4_activate \<in> set (calls st)"
  shows "\<exists>argv st1 rest st2 st3 echo seeds post.
     read_command_line M (bss_init st0) = Inr (argv, st1) \<and>
     parse_options B st1 argv = Inr (rest, st2) \<and>
     paging_init M (palloc_init_result M)
       (emit Malloc_init (emit Palloc_init (emit Console_init (emit Thread_init st2))))
       = Some (Inr st3) \<and>
     calls st1 = Memset_bss # Printf ''Kernel command line:'' # echo @ [Printf [newline]] \<and>
     list_all is_printf echo \<and>
     calls st2 = calls st1 @ seeds \<and> list_all is_random_init seeds \<and>
     calls st3 = calls st2 @
       [Thread_init, Console_init, Palloc_init, Malloc_init, Palloc_get_page, Pml4_activate] \<and>
     calls st = calls st3 @
       (if USERPROG B then [Tss_init, Gdt_init] else []) @
       [Intr_init, Timer_init, Kbd_init, Input_init] @
       (if USERPROG B then [Exception_init, Syscall_init] else []) @
       [Thread_start, Serial_init_queue, Timer_calibrate] @
       (if FILESYS B then [Disk_init, Filesys_init (format_filesys st3)] else []) @
       (if VM B then [Vm_init] else []) @
       [Printf (''Boot complete.'' @ [newline])] @ post"
proof -
  have c0: "calls (bss_init st0) = [Memset_bss]" by (simp add: bss_init_def emit_def fresh)
  from read_command_line_calls[of M "bss_init st0"] c0 obtain pre where
    pre: "calls (result_state2 (read_command_line M (bss_init st0))) = Memset_bss # pre"
      "list_all is_printf pre"
    by auto
  show ?thesis
  proof (cases "read_command_line M (bss_init st0)")
    case (Inl h1)
    with run have "h1 = (h, st)" by (simp add: main_def)
    with pre Inl have "calls st = Memset_bss # pre" by (simp add: result_state2_def)
    with act printf_only_no_activate[OF pre(2)] show ?thesis by simp
  next
    case (Inr r1)
    obtain argv st1 where r1: "r1 = (argv, st1)" by (cases r1) auto
    from Inr r1 have rd: "read_command_line M (bss_init st0) = Inr (argv, st1)" by simp
    from read_command_line_echo[OF rd] c0 obtain echo where
      c1: "calls st1 = Memset_bss # Printf ''Kernel command line:'' # echo @ [Printf [newline]]"
      and echo: "list_all is_printf echo" by auto
    from c1 echo have na1: "Pml4_activate \<notin> set (calls st1)"
      using printf_only_no_activate[OF echo] by simp
    show ?thesis
    proof (cases "parse_options B st1 argv")
      case (Inl h2)
      with run rd have "h2 = (h, st)" by (simp add: main_def)
      with parse_options_calls_Inl[OF Inl] obtain ps where
        "calls st = calls st1 @ ps" "Pml4_activate \<notin> set ps" by auto
      with act na1 show ?thesis by simp
    next
      case parsed: (Inr r2)
      obtain rest st2 where r2: "r2 = (rest, st2)" by (cases r2) auto
      from parsed r2 have po: "parse_options B st1 argv = Inr (rest, st2)" by simp
      from parse_options_calls_Inr[OF po] obtain seeds where
        c2: "calls st2 = calls st1 @ seeds" and seeds: "list_all is_random_init seeds" by auto
      from c2 na1 random_init_only_no_activate[OF seeds]
      have na2: "Pml4_activate \<notin> set (calls st2)" by simp
      define st2' where
        "st2' = emit Malloc_init (emit Palloc_init (emit Console_init (emit Thread_init st2)))"
      have c3: "calls st2' = calls st2 @ [Thread_init, Console_init, Palloc_init, Malloc_init]"
        by (simp add: emit_def st2'_def)
      from run rd po have m: "(case paging_init M (palloc_init_result M) st2' of
                     None \<Rightarrow> None
                   | Some (Inl h) \<Rightarrow> Some h
                   | Some (Inr st) \<Rightarrow>
                       (case run_actions B (start_devices B st) rest of
                          Inl h \<Rightarrow> Some h
                        | Inr st \<Rightarrow>
                            if power_off_when_done st then Some (power_off B st)
                            else Some (Thread_exit, emit Thread_exit_call st))) = Some (h, st)"
        by (simp add: main_def Let_def st2'_def)
      show ?thesis
      proof (cases "paging_init M (palloc_init_result M) st2'")
        case None
        with m show ?thesis by simp
      next
        case (Some r3)
        show ?thesis
        proof (cases r3)
          case (Inl h3)
          with m Some have "h3 = (h, st)" by simp
          with paging_init_calls(2)[of M "palloc_init_result M" st2' h3] Some Inl c3
          have "calls st = calls st2 @ [Thread_init, Console_init, Palloc_init, Malloc_init, Palloc_get_page]"
            by simp
          with act na2 show ?thesis by simp
        next
          case paged: (Inr st3)
          from Some paged have pg: "paging_init M (palloc_init_result M) st2' = Some (Inr st3)"
            by simp
          from paging_init_calls(1)[OF pg] c3
          have c4: "calls st3 = calls st2 @ [Thread_init, Console_init, Palloc_init, Malloc_init,
              Palloc_get_page, Pml4_activate]" by simp
          define devs where "devs =
            (if USERPROG B then [Tss_init, Gdt_init] else []) @
            [Intr_init, Timer_init, Kbd_init, Input_init] @
            (if USERPROG B then [Exception_init, Syscall_init] else []) @
            [Thread_start, Serial_init_queue, Timer_calibrate] @
            (if FILESYS B then [Disk_init, Filesys_init (format_filesys st3)] else []) @
            (if VM B then [Vm_init] else []) @
            [Printf (''Boot complete.'' @ [newline])]"
          have ds: "calls (start_devices B st3) = calls st3 @ devs"
            unfolding devs_def by (simp only: start_devices_calls append_assoc)
          from run_actions_calls[of B "start_devices B st3" rest] obtain acts where
            acts: "calls (result_state (run_actions B (start_devices B st3) rest))
              = calls (start_devices B st3) @ acts" by blast
          have "\<exists>post. calls st = calls st3 @ devs @ post"
          proof (cases "run_actions B (start_devices B st3) rest")
            case (Inl h5)
            with m pg have "h5 = (h, st)" by simp
            with acts ds Inl show ?thesis by (simp add: result_state_def)
          next
            case acted: (Inr st5)
            with acts ds have c5: "calls st5 = calls st3 @ devs @ acts"
              by (simp add: result_state_def)
            show ?thesis
            proof (cases "power_off_when_done st5")
              case True
              with m pg acted have "power_off B st5 = (h, st)" by simp
              with power_off_calls[of B st5] c5 show ?thesis by auto
            next
              case False
              with m pg acted have "st = emit Thread_exit_call st5" by simp
              with c5 show ?thesis by (simp add: emit_def)
            qed
          qed
          then obtain post where c6: "calls st = calls st3 @ devs @ post" by blast
          show ?thesis
            apply (rule exI[of _ argv], rule exI[of _ st1], rule exI[of _ rest], rule exI[of _ st2],
                rule exI[of _ st3], rule exI[of _ echo], rule exI[of _ seeds], rule exI[of _ post])
            using rd po pg[unfolded st2'_def] c1 echo c2 seeds c4 c6[unfolded devs_def]
            by (simp only: append_assoc simp_thms)
        qed
      qed
    qed
  qed
qed


text \<open>
  C5, an instance: a boot with the command line \<open>-rs=1234\<close>, in a build without user
  programs, file system or virtual memory.
\<close>

theorem main_paging_order_witness:
  "\<exists>echo seeds post.
     calls (snd (the (main plain_build (example_machine\<lparr>LOADER_ARG_CNT := 1\<rparr>)
       (boot_state\<lparr>mem := seed_arg\<rparr>)))) =
       Memset_bss # Printf ''Kernel command line:'' # echo @ [Printf [newline]] @ seeds @
       [Thread_init, Console_init, Palloc_init, Malloc_init, Palloc_get_page, Pml4_activate] @
       [Intr_init, Timer_init, Kbd_init, Input_init, Thread_start, Serial_init_queue,
        Timer_calibrate, Printf (''Boot complete.'' @ [newline])] @ post \<and>
     list_all is_printf echo \<and> list_all is_random_init seeds"
proof -
  let ?M = "example_machine\<lparr>LOADER_ARG_CNT := 1\<rparr>"
  let ?st0 = "boot_state\<lparr>mem := seed_arg\<rparr>"
  have "map_option (\<lambda>r. (fst r, calls (snd r))) (main plain_build ?M ?st0) =
     Some (Thread_exit,
       [Memset_bss, Printf ''Kernel command line:'', Printf '' -rs=1234'', Printf [newline],
        Random_init 1234,
        Thread_init, Console_init, Palloc_init, Malloc_init,
        Palloc_get_page, Pml4_activate,
        Intr_init, Timer_init, Kbd_init, Input_init, Thread_start, Serial_init_queue,
        Timer_calibrate, Printf (''Boot complete.'' @ [newline]), Thread_exit_call])"
    by (simp add: main_def plain_build_def example_machine_def boot_state_def bss_init_def
      seed_arg_def read_command_line_def strnlen_def c_str_def echo_token_def
      strtok_r_def apply_option_def atoi_def atoi_str_def isspace_def isdigit_def random_init_def
      paging_init_def paging_loop.simps map_page_def PGSIZE_def
      start_devices_def printf_def emit_def Let_def)
  then obtain h st where run: "main plain_build ?M ?st0 = Some (h, st)"
    and tr: "calls st = [Memset_bss, Printf ''Kernel command line:'', Printf '' -rs=1234'',
        Printf [newline], Random_init 1234,
        Thread_init, Console_init, Palloc_init, Malloc_init,
        Palloc_get_page, Pml4_activate,
        Intr_init, Timer_init, Kbd_init, Input_init, Thread_start, Serial_init_queue,
        Timer_calibrate, Printf (''Boot complete.'' @ [newline]), Thread_exit_call]"
    by auto
  have fresh: "calls ?st0 = []" by (simp add: boot_state_def)
  from tr have act: "Pml4_activate \<in> set (calls st)" by simp
  from main_paging_order[OF run fresh act] obtain argv st1 rest st2 st3 echo seeds post where
    order: "read_command_line ?M (bss_init ?st0) = Inr (argv, st1) \<and>
     parse_options plain_build st1 argv = Inr (rest, st2) \<and>
     paging_init ?M (palloc_init_result ?M)
       (emit Malloc_init (emit Palloc_init (emit Console_init (emit Thread_init st2))))
       = Some (Inr st3) \<and>
     calls st1 = Memset_bss # Printf ''Kernel command line:'' # echo @ [Printf [newline]] \<and>
     list_all is_printf echo \<and>
     calls st2 = calls st1 @ seeds \<and> list_all is_random_init seeds \<and>
     calls st3 = calls st2 @
       [Thread_init, Console_init, Palloc_init, Malloc_init, Palloc_get_page, Pml4_activate] \<and>
     calls st = calls st3 @
       (if USERPROG plain_build then [Tss_init, Gdt_init] else []) @
       [Intr_init, Timer_init, Kbd_init, Input_init] @
       (if USERPROG plain_build then [Exception_init, Syscall_init] else []) @
       [Thread_start, Serial_init_queue, Timer_calibrate] @
       (if FILESYS plain_build then [Disk_init, Filesys_init (format_filesys st3)] else []) @
       (if VM plain_build then [Vm_init] else []) @
       [Printf (''Boot complete.'' @ [newline])] @ post"
    by (elim exE) (rule that)
  then have "calls st =
       Memset_bss # Printf ''Kernel command line:'' # echo @ [Printf [newline]] @ seeds @
       [Thread_init, Console_init, Palloc_init, Malloc_init, Palloc_get_page, Pml4_activate] @
       [Intr_init, Timer_init, Kbd_init, Input_init, Thread_start, Serial_init_queue,
        Timer_calibrate, Printf (''Boot complete.'' @ [newline])] @ post \<and>
     list_all is_printf echo \<and> list_all is_random_init seeds"
    by (simp add: plain_build_def)
  then have "\<exists>echo seeds post. calls st =
       Memset_bss # Printf ''Kernel command line:'' # echo @ [Printf [newline]] @ seeds @
       [Thread_init, Console_init, Palloc_init, Malloc_init, Palloc_get_page, Pml4_activate] @
       [Intr_init, Timer_init, Kbd_init, Input_init, Thread_start, Serial_init_queue,
        Timer_calibrate, Printf (''Boot complete.'' @ [newline])] @ post \<and>
     list_all is_printf echo \<and> list_all is_random_init seeds"
    by (intro exI)
  with run show ?thesis by simp
qed

text \<open>
  C5 as stated fails: in a boot with the command line \<open>-rs=1234\<close>, \<^verbatim>\<open>random_init\<close>,
  \<^verbatim>\<open>thread_init\<close>, \<^verbatim>\<open>console_init\<close>, \<^verbatim>\<open>palloc_init\<close> and \<^verbatim>\<open>malloc_init\<close> are called before
  \<^verbatim>\<open>paging_init\<close> allocates the root and activates the table.
\<close>

theorem main_inits_before_paging_counterexample:
  "map_option (\<lambda>r. (fst r, calls (snd r)))
     (main plain_build (example_machine\<lparr>LOADER_ARG_CNT := 1\<rparr>) (boot_state\<lparr>mem := seed_arg\<rparr>)) =
     Some (Thread_exit,
       [Memset_bss, Printf ''Kernel command line:'', Printf '' -rs=1234'', Printf [newline],
        Random_init 1234,
        Thread_init, Console_init, Palloc_init, Malloc_init,
        Palloc_get_page, Pml4_activate,
        Intr_init, Timer_init, Kbd_init, Input_init, Thread_start, Serial_init_queue,
        Timer_calibrate, Printf (''Boot complete.'' @ [newline]), Thread_exit_call])"
  by (simp add: main_def plain_build_def example_machine_def boot_state_def bss_init_def
      seed_arg_def read_command_line_def strnlen_def c_str_def echo_token_def
      strtok_r_def apply_option_def atoi_def atoi_str_def isspace_def isdigit_def random_init_def
      paging_init_def paging_loop.simps map_page_def PGSIZE_def
      start_devices_def printf_def emit_def Let_def)


end
